theory Spec2Isabelle
  imports Main "HOL-Library.Word" "HOL-Library.AList"
begin

section \<open>Python strings\<close>

text \<open>
  A Python \<open>str\<close> is modelled as a \<open>string\<close>; a \<open>char\<close> stands for the code
  point of the same number, so the model covers the texts whose code points lie in
  U+0000..U+00FF. \<open>isspace\<close> is the whitespace test shared by \<open>str.strip()\<close>,
  \<open>str.split()\<close> and the pattern \<open>\s\<close> of \<open>re\<close> on \<open>str\<close>: in that range the
  code points 9-13, 28-32, 133 and 160. \<open>lower_char\<close> is \<open>str.lower()\<close> on one
  code point: A-Z, and U+00C0..U+00DE without the multiplication sign U+00D7.
\<close>

definition isspace :: "char \<Rightarrow> bool" where
  "isspace c = (let n = (of_char c :: nat) in
      (9 \<le> n \<and> n \<le> 13) \<or> (28 \<le> n \<and> n \<le> 32) \<or> n = 133 \<or> n = 160)"

definition lower_char :: "char \<Rightarrow> char" where
  "lower_char c = (let n = (of_char c :: nat) in
      if (65 \<le> n \<and> n \<le> 90) \<or> (192 \<le> n \<and> n \<le> 222 \<and> n \<noteq> 215)
      then char_of (n + 32) else c)"

text \<open>\<open>s.lower()\<close>\<close>

definition lower :: "string \<Rightarrow> string" where
  "lower s = map lower_char s"

text \<open>
  \<open>s.strip()\<close> and \<open>s.strip(chars)\<close> drop from both ends the characters that are
  whitespace, or that occur in \<open>chars\<close>.
\<close>

definition trim :: "(char \<Rightarrow> bool) \<Rightarrow> string \<Rightarrow> string" where
  "trim P s = rev (dropWhile P (rev (dropWhile P s)))"

definition strip :: "string \<Rightarrow> string" where
  "strip s = trim isspace s"

definition strip_chars :: "string \<Rightarrow> string \<Rightarrow> string" where
  "strip_chars chars s = trim (\<lambda>c. c \<in> set chars) s"

text \<open>\<open>s.startswith(p)\<close>\<close>

definition startswith :: "string \<Rightarrow> string \<Rightarrow> bool" where
  "startswith s p = (take (length p) s = p)"

text \<open>\<open>old in s\<close>\<close>

fun contains :: "string \<Rightarrow> string \<Rightarrow> bool" where
  "contains old [] = (old = [])"
| "contains old (c # cs) = (take (length old) (c # cs) = old \<or> contains old cs)"

text \<open>
  \<open>s.replace(old, new)\<close>: the occurrences of \<open>old\<close> are found from the left and do
  not overlap. For an empty \<open>old\<close> Python puts \<open>new\<close> before every character and at
  the end.
\<close>

function replace :: "string \<Rightarrow> string \<Rightarrow> string \<Rightarrow> string" where
  "replace old new s =
     (if old = [] then new @ concat (map (\<lambda>c. c # new) s)
      else case s of
          [] \<Rightarrow> []
        | c # cs \<Rightarrow>
            if take (length old) s = old
            then new @ replace old new (drop (length old) s)
            else c # replace old new cs)"
  by pat_completeness auto
termination
  by (relation "measure (\<lambda>(old, new, s). length s)") auto

declare replace.simps [simp del]

text \<open>
  \<open>re.sub(r'[class]+', rep, s)\<close> for a character class given as a predicate: every
  maximal run of characters of the class becomes one \<open>rep\<close>.
\<close>

function sub_runs :: "(char \<Rightarrow> bool) \<Rightarrow> string \<Rightarrow> string \<Rightarrow> string" where
  "sub_runs P rep s =
     (case s of
        [] \<Rightarrow> []
      | c # cs \<Rightarrow>
          if P c then rep @ sub_runs P rep (dropWhile P cs)
          else c # sub_runs P rep cs)"
  by pat_completeness auto
termination
  by (relation "measure (\<lambda>(P, rep, s). length s)")
     (auto simp: less_Suc_eq_le length_dropWhile_le)

declare sub_runs.simps [simp del]

text \<open>\<open>s.split()\<close>: the maximal runs of characters that are not whitespace.\<close>

function split :: "string \<Rightarrow> string list" where
  "split s =
     (case dropWhile isspace s of
        [] \<Rightarrow> []
      | c # cs \<Rightarrow>
          (c # takeWhile (\<lambda>x. \<not> isspace x) cs) # split (dropWhile (\<lambda>x. \<not> isspace x) cs))"
  by pat_completeness auto
termination
proof (relation "measure length")
  fix s :: string and c cs
  assume "dropWhile isspace s = c # cs"
  then have "length (c # cs) \<le> length s"
    by (metis length_dropWhile_le)
  moreover have "length (dropWhile (\<lambda>x. \<not> isspace x) cs) \<le> length cs"
    by (rule length_dropWhile_le)
  ultimately show "(dropWhile (\<lambda>x. \<not> isspace x) cs, s) \<in> measure length"
    by simp
qed simp

declare split.simps [simp del]

section \<open>Name keys and identifiers\<close>

text \<open>
  \<open>normalize_name\<close> of the source: strip, lower, drop every \<open>dr. \<close>, then every
  \<open>dr \<close>, every full stop and every comma, then collapse each whitespace run to one
  space.
\<close>

definition normalize_name :: "string \<Rightarrow> string" where
  "normalize_name name =
     sub_runs isspace '' ''
       (replace '','' []
         (replace ''.'' []
           (replace ''dr '' []
             (replace ''dr. '' [] (lower (strip name))))))"

text \<open>The class \<open>[a-z0-9]\<close>.\<close>

definition lower_alnum :: "char \<Rightarrow> bool" where
  "lower_alnum c = (let n = (of_char c :: nat) in
      (97 \<le> n \<and> n \<le> 122) \<or> (48 \<le> n \<and> n \<le> 57))"

definition make_id :: "string \<Rightarrow> string" where
  "make_id name =
     strip_chars ''-'' (sub_runs (\<lambda>c. \<not> lower_alnum c) ''-'' (normalize_name name))"

section \<open>Values and dictionaries\<close>

text \<open>
  The values a record or a candidate can hold (what \<open>json.load\<close> returns and what the
  scrapers build). A float is carried as its 64 bits. A \<open>dict\<close> with string keys is an
  association list in insertion order, read with \<open>map_of\<close>.
\<close>

datatype pyval =
    PNone
  | PBool bool
  | PInt int
  | PFloat "64 word"
  | PStr string
  | PList "pyval list"
  | PDict "(string \<times> pyval) list"

type_synonym pydict = "(string \<times> pyval) list"

datatype py_error = KeyError | AttributeError | IndexError | OtherError string

text \<open>\<open>d.get(k, default)\<close>\<close>

definition get_default :: "pydict \<Rightarrow> string \<Rightarrow> pyval \<Rightarrow> pyval" where
  "get_default d k v = (case map_of d k of None \<Rightarrow> v | Some x \<Rightarrow> x)"

text \<open>Truth value of a Python object, as \<open>or\<close> tests it.\<close>

fun truthy :: "pyval \<Rightarrow> bool" where
  "truthy PNone = False"
| "truthy (PBool b) = b"
| "truthy (PInt i) = (i \<noteq> 0)"
| "truthy (PFloat w) = (w \<noteq> 0 \<and> w \<noteq> 0x8000000000000000)"
| "truthy (PStr s) = (s \<noteq> [])"
| "truthy (PList xs) = (xs \<noteq> [])"
| "truthy (PDict d) = (d \<noteq> [])"

text \<open>
  A replacement field of an f-string: a \<open>str\<close> is inserted as it is; the text of any
  other object is Python's \<open>format\<close>, a parameter \<open>fmt\<close> of the model.
\<close>

definition format_value :: "(pyval \<Rightarrow> string) \<Rightarrow> pyval \<Rightarrow> string" where
  "format_value fmt v = (case v of PStr s \<Rightarrow> s | _ \<Rightarrow> fmt v)"

section \<open>Merge\<close>

text \<open>
  The set comprehension \<open>{normalize_name(d['name']) for d in existing}\<close>: a record
  without the key raises \<open>KeyError\<close>, a name that is not a \<open>str\<close> has no \<open>strip\<close>
  and raises \<open>AttributeError\<close>; the first record that fails decides.
\<close>

fun name_keys :: "pydict list \<Rightarrow> py_error + string set" where
  "name_keys [] = Inr {}"
| "name_keys (d # ds) =
     (case map_of d ''name'' of
        None \<Rightarrow> Inl KeyError
      | Some (PStr s) \<Rightarrow>
          (case name_keys ds of
             Inl e \<Rightarrow> Inl e
           | Inr ns \<Rightarrow> Inr (insert (normalize_name s) ns))
      | Some _ \<Rightarrow> Inl AttributeError)"

text \<open>
  The \<open>fn\<close> and \<open>ln\<close> fields: first and last token of the name without \<open>Dr. \<close>, or
  two empty strings; indexing an empty token list raises \<open>IndexError\<close>.
\<close>

definition name_parts :: "string \<Rightarrow> py_error + string \<times> string" where
  "name_parts name =
     (if startswith name ''Dr. ''
      then (case split (replace ''Dr. '' [] name) of
              [] \<Rightarrow> Inl IndexError
            | t # ts \<Rightarrow> Inr (t, last (t # ts)))
      else Inr ([], []))"

definition build_record :: "(pyval \<Rightarrow> string) \<Rightarrow> string \<Rightarrow> pydict \<Rightarrow> py_error + pydict" where
  "build_record fmt name entry =
     (case name_parts name of
        Inl e \<Rightarrow> Inl e
      | Inr (fn, ln) \<Rightarrow> Inr
          [(''id'', PStr (make_id name)),
           (''name'', PStr name),
           (''fn'', PStr fn),
           (''ln'', PStr ln),
           (''creds'', PList [PStr ''MD'']),
           (''org'', get_default entry ''org'' (PStr ''Verify directly'')),
           (''city'', get_default entry ''city'' (PStr [])),
           (''state'', get_default entry ''state'' (PStr [])),
           (''lat'', PNone),
           (''lon'', PNone),
           (''phone'', get_default entry ''phone'' PNone),
           (''web'', (let w = get_default entry ''web'' PNone
                      in if truthy w then w else get_default entry ''profile_url'' (PStr []))),
           (''specs'', get_default entry ''specs'' (PList [PStr ''Excision Surgery''])),
           (''ins'', PStr ''Verify directly''),
           (''accepting'', get_default entry ''accepting'' (PBool True)),
           (''notes'', get_default entry ''notes''
              (PStr (''Added via ''
                 @ format_value fmt (get_default entry ''source'' (PStr ''monthly update''))
                 @ ''. Verify details directly.''))),
           (''stars'', PInt 4),
           (''source'', get_default entry ''source'' (PStr ''Monthly Update'')),
           (''verified'', PBool False)])"

text \<open>
  The loop over \<open>new_entries\<close>. \<open>existing\<close> is appended to in place, so the list the
  caller holds has the records added so far also when a later candidate raises: the
  model returns the list together with the exception or the count.
\<close>

fun merge_loop ::
  "(pyval \<Rightarrow> string) \<Rightarrow> pydict list \<Rightarrow> string set \<Rightarrow> nat \<Rightarrow> pydict list
     \<Rightarrow> pydict list \<times> (py_error + nat)" where
  "merge_loop fmt existing existing_names added [] = (existing, Inr added)"
| "merge_loop fmt existing existing_names added (entry # rest) =
     (case get_default entry ''name'' (PStr []) of
        PStr raw \<Rightarrow>
          (let name = strip raw in
           if name = [] \<or> \<not> startswith name ''Dr.''
           then merge_loop fmt existing existing_names added rest
           else
             (let norm = normalize_name name in
              if norm \<in> existing_names
              then merge_loop fmt existing existing_names added rest
              else
                (case build_record fmt name entry of
                   Inl e \<Rightarrow> (existing, Inl e)
                 | Inr record \<Rightarrow>
                     merge_loop fmt (existing @ [record]) (insert norm existing_names)
                       (added + 1) rest)))
      | _ \<Rightarrow> (existing, Inl AttributeError))"

definition merge_surgeons ::
  "(pyval \<Rightarrow> string) \<Rightarrow> pydict list \<Rightarrow> pydict list \<Rightarrow> pydict list \<times> (py_error + nat)" where
  "merge_surgeons fmt existing new_entries =
     (case name_keys existing of
        Inl e \<Rightarrow> (existing, Inl e)
      | Inr existing_names \<Rightarrow> merge_loop fmt existing existing_names 0 new_entries)"

text \<open>
  How the loop treats one candidate name: \<open>rejected\<close> is the disjunction of its two
  \<open>continue\<close> tests, \<open>skips\<close> says that a candidate is passed over without an
  exception.
\<close>

definition rejected :: "string set \<Rightarrow> string \<Rightarrow> bool" where
  "rejected ns name =
     (name = [] \<or> \<not> startswith name ''Dr.'' \<or> normalize_name name \<in> ns)"

definition skips :: "string set \<Rightarrow> pydict \<Rightarrow> bool" where
  "skips ns entry =
     (case get_default entry ''name'' (PStr []) of
        PStr raw \<Rightarrow> rejected ns (strip raw)
      | _ \<Rightarrow> False)"

text \<open>A candidate whose \<open>name\<close> is a \<open>str\<close>, or that has none: \<open>strip\<close> does not raise.\<close>

definition well_named :: "pydict \<Rightarrow> bool" where
  "well_named entry =
     (case get_default entry ''name'' (PStr []) of PStr raw \<Rightarrow> True | _ \<Rightarrow> False)"

section \<open>The name pattern of the scrapers\<close>

text \<open>
  The names the scrapers extract match \<open>Dr\. [A-Z][a-z]+(?: [A-Z][a-z]+)+\<close>: the
  title, then two or more capitalised words, one space between them.
\<close>

definition upper_ascii :: "char \<Rightarrow> bool" where
  "upper_ascii c = (let n = (of_char c :: nat) in 65 \<le> n \<and> n \<le> 90)"

definition lower_ascii :: "char \<Rightarrow> bool" where
  "lower_ascii c = (let n = (of_char c :: nat) in 97 \<le> n \<and> n \<le> 122)"

definition cap_word :: "string \<Rightarrow> bool" where
  "cap_word w =
     (case w of [] \<Rightarrow> False | c # cs \<Rightarrow> upper_ascii c \<and> cs \<noteq> [] \<and> list_all lower_ascii cs)"

text \<open>The pieces of a string between its single spaces.\<close>

fun pieces :: "string \<Rightarrow> string list" where
  "pieces [] = [[]]"
| "pieces (c # cs) =
     (if c = CHR '' '' then [] # pieces cs
      else (case pieces cs of [] \<Rightarrow> [[c]] | w # ws \<Rightarrow> (c # w) # ws))"

definition title_shape :: "string \<Rightarrow> bool" where
  "title_shape name =
     (startswith name ''Dr. '' \<and>
      2 \<le> length (pieces (drop 4 name)) \<and> list_all cap_word (pieces (drop 4 name)))"

section \<open>The paginated scraper\<close>

text \<open>
  What \<open>scrape_icarebetter\<close> reads from a parsed page: the elements its selector
  finds, the \<open>h2\<close>/\<open>h3\<close>/\<open>h4\<close> headings with their text and parent, and whether a
  next-page link is there. Of a card it reads the text of the name tag, of the location
  tag and the \<open>href\<close> of the first link, each possibly missing.
\<close>

record card =
  name_tag :: "string option"
  loc_tag :: "string option"
  link_tag :: "string option"

record soup =
  doctor_cards :: "card list"
  headings :: "(string \<times> card) list"
  next_btn :: bool

definition page_cards :: "soup \<Rightarrow> card list" where
  "page_cards page =
     (if doctor_cards page \<noteq> [] then doctor_cards page
      else map snd (filter (\<lambda>(text, parent). startswith (strip text) ''Dr.'') (headings page)))"

definition card_entry :: "card \<Rightarrow> pydict option" where
  "card_entry c =
     (case name_tag c of
        None \<Rightarrow> None
      | Some name \<Rightarrow>
          if \<not> startswith name ''Dr.'' then None
          else Some
            [(''name'', PStr name),
             (''source_location'', PStr (case loc_tag c of None \<Rightarrow> [] | Some l \<Rightarrow> l)),
             (''source'', PStr ''iCareBetter''),
             (''profile_url'', PStr (case link_tag c of None \<Rightarrow> [] | Some h \<Rightarrow> h)),
             (''specs'', PList [PStr ''Excision Surgery'']),
             (''accepting'', PBool True)])"

text \<open>
  The \<open>while True\<close> loop. \<open>get\<close> gives the page of each page number (\<open>None\<close> when
  the fetch fails); \<open>fetched\<close> lists the page numbers requested so far, the trace the
  source logs before each request.
\<close>

function icarebetter_pages ::
  "(nat \<Rightarrow> soup option) \<Rightarrow> nat \<Rightarrow> pydict list \<Rightarrow> nat list \<Rightarrow> pydict list \<times> nat list" where
  "icarebetter_pages get page surgeons fetched =
     (case get page of
        None \<Rightarrow> (surgeons, fetched @ [page])
      | Some soup \<Rightarrow>
          if page_cards soup = [] then (surgeons, fetched @ [page])
          else if \<not> next_btn soup
            then (surgeons @ List.map_filter card_entry (page_cards soup), fetched @ [page])
          else if page + 1 > 40
            then (surgeons @ List.map_filter card_entry (page_cards soup), fetched @ [page])
          else icarebetter_pages get (page + 1)
                 (surgeons @ List.map_filter card_entry (page_cards soup)) (fetched @ [page]))"
  by pat_completeness auto
termination
  by (relation "measure (\<lambda>(get, page, surgeons, fetched). 41 - page)") auto

declare icarebetter_pages.simps [simp del]

definition scrape_icarebetter :: "(nat \<Rightarrow> soup option) \<Rightarrow> pydict list \<times> nat list" where
  "scrape_icarebetter get = icarebetter_pages get 1 [] []"

section \<open>The run\<close>

text \<open>
  The loop of \<open>main\<close> over the sources; \<open>run_source\<close> is its body, the \<open>try\<close>
  with its \<open>except Exception\<close>. A scraper either raises or returns its candidates;
  the outcome of a source is its two counts or the exception caught.
  \<open>results_by_source\<close> is a \<open>dict\<close>: assigning to a key replaces its value or adds the
  key at the end.
\<close>

datatype outcome = Counts nat nat | Failed py_error

record run_state =
  existing :: "pydict list"
  total_added :: nat
  results_by_source :: "(string \<times> outcome) list"

definition run_source ::
  "(pyval \<Rightarrow> string) \<Rightarrow> run_state \<Rightarrow> string \<times> (py_error + pydict list) \<Rightarrow> run_state" where
  "run_source fmt st src =
     (case src of (source_name, scraped) \<Rightarrow>
        (case scraped of
           Inl e \<Rightarrow>
             st\<lparr>results_by_source := AList.update source_name (Failed e) (results_by_source st)\<rparr>
         | Inr new_entries \<Rightarrow>
             (case merge_surgeons fmt (existing st) new_entries of
                (existing', Inl e) \<Rightarrow>
                  st\<lparr>existing := existing',
                     results_by_source :=
                       AList.update source_name (Failed e) (results_by_source st)\<rparr>
              | (existing', Inr added) \<Rightarrow>
                  st\<lparr>existing := existing',
                     total_added := total_added st + added,
                     results_by_source :=
                       AList.update source_name (Counts (length new_entries) added)
                         (results_by_source st)\<rparr>)))"

fun run_sources ::
  "(pyval \<Rightarrow> string) \<Rightarrow> run_state \<Rightarrow> (string \<times> (py_error + pydict list)) list \<Rightarrow> run_state" where
  "run_sources fmt st [] = st"
| "run_sources fmt st (src # rest) = run_sources fmt (run_source fmt st src) rest"

text \<open>\<open>history.append(log_entry); history = history[-24:]\<close>\<close>

definition append_history :: "'a list \<Rightarrow> 'a \<Rightarrow> 'a list" where
  "append_history history log_entry =
     (let h = history @ [log_entry] in drop (length h - 24) h)"

section \<open>Properties of the merge\<close>

lemma name_keys_append:
  "name_keys (xs @ ys) =
     (case name_keys xs of
        Inl e \<Rightarrow> Inl e
      | Inr a \<Rightarrow> (case name_keys ys of Inl e \<Rightarrow> Inl e | Inr b \<Rightarrow> Inr (a \<union> b)))"
  by (induction xs) (auto split: option.splits pyval.splits sum.splits)

lemma build_record_name:
  "build_record fmt name entry = Inr r \<Longrightarrow> map_of r ''name'' = Some (PStr name)"
  by (auto simp: build_record_def split: sum.splits prod.splits)

lemma name_keys_snoc:
  assumes "name_keys ex = Inr ns" and "build_record fmt name entry = Inr r"
  shows "name_keys (ex @ [r]) = Inr (insert (normalize_name name) ns)"
  using assms build_record_name [OF assms(2)] by (simp add: name_keys_append)

lemma merge_loop_skip:
  "get_default entry ''name'' (PStr []) = PStr raw \<Longrightarrow> rejected ns (strip raw) \<Longrightarrow>
   merge_loop fmt ex ns k (entry # rest) = merge_loop fmt ex ns k rest"
  by (auto simp: rejected_def Let_def)

lemma merge_loop_add:
  "get_default entry ''name'' (PStr []) = PStr raw \<Longrightarrow> \<not> rejected ns (strip raw) \<Longrightarrow>
   build_record fmt (strip raw) entry = Inr rcd \<Longrightarrow>
   merge_loop fmt ex ns k (entry # rest) =
     merge_loop fmt (ex @ [rcd]) (insert (normalize_name (strip raw)) ns) (Suc k) rest"
  by (auto simp: rejected_def Let_def)

lemma merge_loop_raise:
  "get_default entry ''name'' (PStr []) = PStr raw \<Longrightarrow> \<not> rejected ns (strip raw) \<Longrightarrow>
   build_record fmt (strip raw) entry = Inl e \<Longrightarrow>
   merge_loop fmt ex ns k (entry # rest) = (ex, Inl e)"
  by (auto simp: rejected_def Let_def)

lemma merge_loop_not_str:
  "\<forall>raw. get_default entry ''name'' (PStr []) \<noteq> PStr raw \<Longrightarrow>
   merge_loop fmt ex ns k (entry # rest) = (ex, Inl AttributeError)"
  by (cases "get_default entry ''name'' (PStr [])") auto

lemma merge_loop_cases [case_names skip add raise not_str]:
  obtains raw where "get_default entry ''name'' (PStr []) = PStr raw" "rejected ns (strip raw)"
  | raw rcd where "get_default entry ''name'' (PStr []) = PStr raw" "\<not> rejected ns (strip raw)"
      "build_record fmt (strip raw) entry = Inr rcd"
  | raw e where "get_default entry ''name'' (PStr []) = PStr raw" "\<not> rejected ns (strip raw)"
      "build_record fmt (strip raw) entry = Inl e"
  | "\<forall>raw. get_default entry ''name'' (PStr []) \<noteq> PStr raw"
  by (cases "get_default entry ''name'' (PStr [])"; cases "build_record fmt (strip (case get_default entry ''name'' (PStr []) of PStr r \<Rightarrow> r | _ \<Rightarrow> [])) entry") auto

lemma merge_loop_prefix:
  "\<exists>new. fst (merge_loop fmt ex ns k C) = ex @ new"
proof (induction C arbitrary: ex ns k)
  case Nil
  show ?case by simp
next
  case (Cons entry rest)
  show ?case
  proof (cases rule: merge_loop_cases [where entry = entry and ns = ns and fmt = fmt])
    case (skip raw)
    then show ?thesis using Cons.IH [of ex ns k] by (simp only: merge_loop_skip [OF skip])
  next
    case (add raw rcd)
    obtain new where "fst (merge_loop fmt (ex @ [rcd]) (insert (normalize_name (strip raw)) ns) (Suc k) rest)
        = (ex @ [rcd]) @ new"
      using Cons.IH by blast
    then show ?thesis by (simp only: merge_loop_add [OF add]) simp
  next
    case (raise raw e)
    then show ?thesis by (simp only: merge_loop_raise [OF raise]) simp
  next
    case not_str
    then show ?thesis by (simp only: merge_loop_not_str [OF not_str]) simp
  qed
qed

lemma merge_loop_shift:
  "merge_loop fmt ex ns (k + j) C =
     (case merge_loop fmt ex ns k C of
        (ex', r) \<Rightarrow> (ex', case r of Inl e \<Rightarrow> Inl e | Inr a \<Rightarrow> Inr (a + j)))"
proof (induction C arbitrary: ex ns k)
  case Nil
  show ?case by simp
next
  case (Cons entry rest)
  show ?case
  proof (cases rule: merge_loop_cases [where entry = entry and ns = ns and fmt = fmt])
    case (skip raw)
    then show ?thesis using Cons.IH [of ex ns k] by (simp only: merge_loop_skip [OF skip])
  next
    case (add raw rcd)
    show ?thesis
      using Cons.IH [of "ex @ [rcd]" "insert (normalize_name (strip raw)) ns" "Suc k"]
      by (simp only: merge_loop_add [OF add] add_Suc)
  next
    case (raise raw e)
    then show ?thesis by (simp only: merge_loop_raise [OF raise]) simp
  next
    case not_str
    then show ?thesis by (simp only: merge_loop_not_str [OF not_str]) simp
  qed
qed

lemma merge_loop_skips:
  "list_all (skips ns) C \<Longrightarrow> merge_loop fmt ex ns k C = (ex, Inr k)"
proof (induction C)
  case Nil
  show ?case by simp
next
  case (Cons entry rest)
  then obtain raw where "get_default entry ''name'' (PStr []) = PStr raw" "rejected ns (strip raw)"
    by (auto simp: skips_def split: pyval.splits)
  then show ?case using Cons by (simp add: merge_loop_skip del: merge_loop.simps)
qed

lemma rejected_mono: "rejected ns name \<Longrightarrow> ns \<subseteq> ns' \<Longrightarrow> rejected ns' name"
  by (auto simp: rejected_def)

lemma merge_loop_inv:
  assumes "name_keys ex = Inr ns" and "merge_loop fmt ex ns k C = (ex', r)"
  shows "\<exists>ns'. name_keys ex' = Inr ns' \<and> ns \<subseteq> ns' \<and> (\<forall>a. r = Inr a \<longrightarrow> list_all (skips ns') C)"
  using assms
proof (induction C arbitrary: ex ns k)
  case Nil
  then show ?case by auto
next
  case (Cons entry rest)
  show ?case
  proof (cases rule: merge_loop_cases [where entry = entry and ns = ns and fmt = fmt])
    case (skip raw)
    then have "merge_loop fmt ex ns k rest = (ex', r)"
      using Cons.prems(2) by (simp only: merge_loop_skip [OF skip])
    from Cons.IH [OF Cons.prems(1) this] obtain ns' where
      ns': "name_keys ex' = Inr ns'" "ns \<subseteq> ns'" "\<forall>a. r = Inr a \<longrightarrow> list_all (skips ns') rest"
      by blast
    have "skips ns' entry" using skip ns'(2) by (auto simp: skips_def rejected_mono)
    with ns' show ?thesis by auto
  next
    case (add raw rcd)
    let ?ns1 = "insert (normalize_name (strip raw)) ns"
    have step: "merge_loop fmt (ex @ [rcd]) ?ns1 (Suc k) rest = (ex', r)"
      using Cons.prems(2) by (simp only: merge_loop_add [OF add])
    have keys: "name_keys (ex @ [rcd]) = Inr ?ns1"
      by (rule name_keys_snoc [OF Cons.prems(1) add(3)])
    from Cons.IH [OF keys step] obtain ns' where
      ns': "name_keys ex' = Inr ns'" "?ns1 \<subseteq> ns'" "\<forall>a. r = Inr a \<longrightarrow> list_all (skips ns') rest"
      by blast
    have "skips ns' entry" using add(1) ns'(2) by (auto simp: skips_def rejected_def)
    with ns' show ?thesis by auto
  next
    case (raise raw e)
    then have "ex' = ex" "r = Inl e"
      using Cons.prems(2) by (simp_all only: merge_loop_raise [OF raise]) simp_all
    then show ?thesis using Cons.prems(1) by auto
  next
    case not_str
    then have "ex' = ex" "r = Inl AttributeError"
      using Cons.prems(2) by (simp_all only: merge_loop_not_str [OF not_str]) simp_all
    then show ?thesis using Cons.prems(1) by auto
  qed
qed

lemma merge_loop_append:
  assumes "name_keys ex = Inr ns" and "merge_loop fmt ex ns k C1 = (ex1, Inr k1)"
  shows "\<exists>ns1. name_keys ex1 = Inr ns1 \<and>
           merge_loop fmt ex ns k (C1 @ C2) = merge_loop fmt ex1 ns1 k1 C2"
  using assms
proof (induction C1 arbitrary: ex ns k)
  case Nil
  then show ?case by auto
next
  case (Cons entry rest)
  show ?case
  proof (cases rule: merge_loop_cases [where entry = entry and ns = ns and fmt = fmt])
    case (skip raw)
    then have "merge_loop fmt ex ns k rest = (ex1, Inr k1)"
      using Cons.prems(2) by (simp only: merge_loop_skip [OF skip])
    from Cons.IH [OF Cons.prems(1) this] show ?thesis
      by (simp only: append_Cons merge_loop_skip [OF skip])
  next
    case (add raw rcd)
    let ?ns1 = "insert (normalize_name (strip raw)) ns"
    have step: "merge_loop fmt (ex @ [rcd]) ?ns1 (Suc k) rest = (ex1, Inr k1)"
      using Cons.prems(2) by (simp only: merge_loop_add [OF add])
    have keys: "name_keys (ex @ [rcd]) = Inr ?ns1"
      by (rule name_keys_snoc [OF Cons.prems(1) add(3)])
    from Cons.IH [OF keys step] show ?thesis
      by (simp only: append_Cons merge_loop_add [OF add])
  next
    case (raise raw e)
    then show ?thesis using Cons.prems(2) by (simp only: merge_loop_raise [OF raise]) simp
  next
    case not_str
    then show ?thesis using Cons.prems(2) by (simp only: merge_loop_not_str [OF not_str]) simp
  qed
qed

lemma merge_loop_error_append:
  "merge_loop fmt ex ns k C1 = (ex1, Inl e) \<Longrightarrow>
   merge_loop fmt ex ns k (C1 @ C2) = (ex1, Inl e)"
proof (induction C1 arbitrary: ex ns k)
  case Nil
  then show ?case by simp
next
  case (Cons entry rest)
  show ?case
  proof (cases rule: merge_loop_cases [where entry = entry and ns = ns and fmt = fmt])
    case (skip raw)
    then show ?thesis using Cons by (simp only: append_Cons merge_loop_skip [OF skip])
  next
    case (add raw rcd)
    show ?thesis using Cons by (simp only: append_Cons merge_loop_add [OF add])
  next
    case (raise raw e')
    then show ?thesis using Cons.prems by (simp only: append_Cons merge_loop_raise [OF raise])
  next
    case not_str
    then show ?thesis using Cons.prems by (simp only: append_Cons merge_loop_not_str [OF not_str])
  qed
qed

lemma merge_surgeons_prefix: "\<exists>new. fst (merge_surgeons fmt E C) = E @ new"
  using merge_loop_prefix [of fmt E _ 0 C]
  by (cases "name_keys E") (auto simp: merge_surgeons_def)

text \<open>
  C3. Merging never touches what was there: for every canonical list \<open>E\<close> and every
  candidate list \<open>C\<close>, the list after \<open>merge_surgeons\<close> is \<open>E\<close> itself followed by the
  records added, so every record of \<open>E\<close> is still there, at its place, with every
  field as it was. This holds for all candidates (also those whose key an existing
  record has) and also when the call ends in an exception.
\<close>

theorem merge_keeps_existing: "\<exists>new. fst (merge_surgeons fmt E C) = E @ new"
  by (rule merge_surgeons_prefix)

theorem merge_keeps_existing_witness:
  "\<exists>new. fst (merge_surgeons (\<lambda>v. ''None'')
       [[(''name'', PStr ''Dr. Jane Smith''), (''city'', PStr ''Reno''), (''verified'', PBool True)]]
       [[(''name'', PStr ''dr. jane smith''), (''city'', PStr ''Austin'')],
        [(''name'', PStr ''Dr. Jane Smith''), (''city'', PStr ''Austin'')]])
     = [[(''name'', PStr ''Dr. Jane Smith''), (''city'', PStr ''Reno''), (''verified'', PBool True)]]
       @ new"
  by (rule merge_keeps_existing)

text \<open>
  C1. Idempotence: if \<open>merge_surgeons\<close> on \<open>E\<close> and \<open>C\<close> returns the list \<open>E'\<close> (and a
  count), then \<open>merge_surgeons\<close> on \<open>E'\<close> and the same \<open>C\<close> returns \<open>E'\<close> unchanged
  and the count 0.
\<close>

theorem merge_idempotent:
  assumes "merge_surgeons fmt E C = (E', Inr a)"
  shows "merge_surgeons fmt E' C = (E', Inr 0)"
proof -
  from assms obtain ns where ns: "name_keys E = Inr ns" "merge_loop fmt E ns 0 C = (E', Inr a)"
    by (cases "name_keys E") (auto simp: merge_surgeons_def)
  from merge_loop_inv [OF ns] obtain ns' where
    ns': "name_keys E' = Inr ns'" "list_all (skips ns') C"
    by blast
  show ?thesis
    by (simp add: merge_surgeons_def ns'(1) merge_loop_skips [OF ns'(2)])
qed

theorem merge_idempotent_witness:
  "snd (merge_surgeons (\<lambda>v. ''None'') []
          [[(''name'', PStr ''Dr. Jane Smith'')],
           [(''name'', PStr ''Dr. Jane Smith'')],
           [(''name'', PStr ''Dr. John Doe'')]]) = Inr 2 \<and>
   merge_surgeons (\<lambda>v. ''None'')
     (fst (merge_surgeons (\<lambda>v. ''None'') []
          [[(''name'', PStr ''Dr. Jane Smith'')],
           [(''name'', PStr ''Dr. Jane Smith'')],
           [(''name'', PStr ''Dr. John Doe'')]]))
     [[(''name'', PStr ''Dr. Jane Smith'')],
      [(''name'', PStr ''Dr. Jane Smith'')],
      [(''name'', PStr ''Dr. John Doe'')]]
   = (fst (merge_surgeons (\<lambda>v. ''None'') []
          [[(''name'', PStr ''Dr. Jane Smith'')],
           [(''name'', PStr ''Dr. Jane Smith'')],
           [(''name'', PStr ''Dr. John Doe'')]]), Inr 0)"
proof -
  let ?C = "[[(''name'', PStr ''Dr. Jane Smith'')],
             [(''name'', PStr ''Dr. Jane Smith'')],
             [(''name'', PStr ''Dr. John Doe'')]]"
  let ?f = "\<lambda>v::pyval. ''None''"
  have added: "snd (merge_surgeons ?f [] ?C) = Inr 2"
    by code_simp
  then have "merge_surgeons ?f [] ?C = (fst (merge_surgeons ?f [] ?C), Inr 2)"
    by (simp add: prod_eq_iff)
  from merge_idempotent [OF this] added show ?thesis
    by simp
qed

text \<open>
  C5. One call per source or one call on all candidates: if \<open>merge_surgeons\<close> on \<open>E\<close>
  and \<open>C1\<close> returns \<open>E1\<close> and the count \<open>a1\<close>, then the call on \<open>E\<close> and \<open>C1 @ C2\<close>
  ends with the list that the call on \<open>E1\<close> and \<open>C2\<close> ends with, and its count is
  \<open>a1\<close> plus the count of that call; if that call raises, so does the single call,
  with the same exception.
\<close>

theorem merge_successive:
  assumes "merge_surgeons fmt E C1 = (E1, Inr a1)"
  shows "merge_surgeons fmt E (C1 @ C2) =
     (case merge_surgeons fmt E1 C2 of
        (E2, r) \<Rightarrow> (E2, case r of Inl e \<Rightarrow> Inl e | Inr a2 \<Rightarrow> Inr (a1 + a2)))"
proof -
  from assms obtain ns where ns: "name_keys E = Inr ns" "merge_loop fmt E ns 0 C1 = (E1, Inr a1)"
    by (cases "name_keys E") (auto simp: merge_surgeons_def)
  from merge_loop_append [OF ns, of C2] obtain ns1 where
    ns1: "name_keys E1 = Inr ns1"
      "merge_loop fmt E ns 0 (C1 @ C2) = merge_loop fmt E1 ns1 a1 C2"
    by blast
  have "merge_loop fmt E1 ns1 (0 + a1) C2 =
     (case merge_loop fmt E1 ns1 0 C2 of
        (E2, r) \<Rightarrow> (E2, case r of Inl e \<Rightarrow> Inl e | Inr a2 \<Rightarrow> Inr (a2 + a1)))"
    by (rule merge_loop_shift)
  then show ?thesis
    by (auto simp: merge_surgeons_def ns(1) ns1 split: prod.splits sum.splits)
qed

theorem merge_successive_witness:
  "snd (merge_surgeons (\<lambda>v. ''None'') []
          [[(''name'', PStr ''Dr. Jane Smith'')], [(''name'', PStr ''Dr. Jane Smith'')]]) = Inr 1 \<and>
   snd (merge_surgeons (\<lambda>v. ''None'')
          (fst (merge_surgeons (\<lambda>v. ''None'') []
             [[(''name'', PStr ''Dr. Jane Smith'')], [(''name'', PStr ''Dr. Jane Smith'')]]))
          [[(''name'', PStr ''Dr. John Doe'')], [(''name'', PStr ''Dr. Jane Smith'')]]) = Inr 1 \<and>
   merge_surgeons (\<lambda>v. ''None'') []
     ([[(''name'', PStr ''Dr. Jane Smith'')], [(''name'', PStr ''Dr. Jane Smith'')]]
      @ [[(''name'', PStr ''Dr. John Doe'')], [(''name'', PStr ''Dr. Jane Smith'')]])
   = (fst (merge_surgeons (\<lambda>v. ''None'')
          (fst (merge_surgeons (\<lambda>v. ''None'') []
             [[(''name'', PStr ''Dr. Jane Smith'')], [(''name'', PStr ''Dr. Jane Smith'')]]))
          [[(''name'', PStr ''Dr. John Doe'')], [(''name'', PStr ''Dr. Jane Smith'')]]),
      Inr 2)"
proof -
  let ?C1 = "[[(''name'', PStr ''Dr. Jane Smith'')], [(''name'', PStr ''Dr. Jane Smith'')]]"
  let ?C2 = "[[(''name'', PStr ''Dr. John Doe'')], [(''name'', PStr ''Dr. Jane Smith'')]]"
  let ?f = "\<lambda>v::pyval. ''None''"
  let ?E1 = "fst (merge_surgeons ?f [] ?C1)"
  have first: "snd (merge_surgeons ?f [] ?C1) = Inr 1"
    by code_simp
  have second: "snd (merge_surgeons ?f ?E1 ?C2) = Inr 1"
    by code_simp
  have "merge_surgeons ?f [] ?C1 = (?E1, Inr 1)"
    using first by (simp add: prod_eq_iff)
  from merge_successive [OF this, of ?C2] first second show ?thesis
    by (simp add: case_prod_beta)
qed

section \<open>Properties of the history and of the page loop\<close>

lemma append_history_length: "length (append_history h e) = min 24 (length h + 1)"
  by (auto simp: append_history_def Let_def)

lemma append_history_suffix: "\<exists>evicted. h @ [e] = evicted @ append_history h e"
proof -
  have "h @ [e] = take (length (h @ [e]) - 24) (h @ [e]) @ append_history h e"
    unfolding append_history_def Let_def by (simp only: append_take_drop_id)
  then show ?thesis ..
qed

text \<open>
  C8. Retention cap: for every history \<open>h\<close> and every new entry \<open>e\<close>, the history
  written back has \<open>min 24 (length h + 1)\<close> entries, so never more than 24 and exactly
  24 once the cap is reached, and it is the end of \<open>h @ [e]\<close>: what is evicted is a
  front part, the oldest entries, and the entries kept stay in their order, oldest
  first, the new entry last.
\<close>

theorem history_capped:
  "length (append_history h e) = min 24 (length h + 1) \<and>
   (\<exists>evicted. h @ [e] = evicted @ append_history h e)"
  by (rule conjI [OF append_history_length append_history_suffix])

theorem history_capped_witness:
  "append_history [1..<30] (100::nat) = [7..<30] @ [100] \<and>
   length (append_history [1..<30] (100::nat)) = min 24 (length [1..<30] + 1)"
  using history_capped [of "[1..<30]" "100::nat"] by (simp add: append_history_def)

lemma pages_trace:
  "\<exists>n. page \<le> n \<and> n \<le> max page 40 \<and>
       snd (icarebetter_pages get page surgeons fetched) = fetched @ [page..<Suc n]"
proof (induction get page surgeons fetched rule: icarebetter_pages.induct)
  case (1 get page surgeons fetched)
  have stop: "\<exists>n. page \<le> n \<and> n \<le> max page 40 \<and> fetched @ [page] = fetched @ [page..<Suc n]"
    by (rule exI [of _ page]) simp
  show ?case
  proof (cases "get page")
    case None
    then show ?thesis using stop by (subst icarebetter_pages.simps) simp
  next
    case (Some soup)
    show ?thesis
    proof (cases "page_cards soup \<noteq> [] \<and> next_btn soup \<and> \<not> page + 1 > 40")
      case False
      then show ?thesis using stop Some by (subst icarebetter_pages.simps) auto
    next
      case True
      from "1.IH" [OF Some] True obtain n where
        n: "page + 1 \<le> n" "n \<le> max (page + 1) 40"
          "snd (icarebetter_pages get (page + 1)
             (surgeons @ List.map_filter card_entry (page_cards soup)) (fetched @ [page]))
           = (fetched @ [page]) @ [page + 1..<Suc n]"
        by blast
      have "[page..<Suc n] = page # [page + 1..<Suc n]"
        using n(1) by (simp add: upt_conv_Cons)
      then have "snd (icarebetter_pages get page surgeons fetched) = fetched @ [page..<Suc n]"
        using n(3) Some True by (subst icarebetter_pages.simps) simp
      moreover have "page \<le> n" "n \<le> max page 40" using n(1,2) True by auto
      ultimately show ?thesis by blast
    qed
  qed
qed

text \<open>
  C9. The page loop stops: \<open>icarebetter_pages\<close> is a total function, and for every
  assignment \<open>get\<close> of pages to page numbers, also one where every page has cards and
  a next-page link, the pages requested are \<open>1, 2, ..., n\<close> for some \<open>n\<close> of at most
  40.
\<close>

theorem page_cap:
  "length (snd (scrape_icarebetter get)) \<le> 40 \<and>
   (\<exists>n. 1 \<le> n \<and> n \<le> 40 \<and> snd (scrape_icarebetter get) = [1..<Suc n])"
proof -
  from pages_trace [of 1 get "[]" "[]"] obtain n where
    n: "1 \<le> n" "n \<le> 40" "snd (scrape_icarebetter get) = [1..<Suc n]"
    by (auto simp: scrape_icarebetter_def)
  then show ?thesis by auto
qed

theorem page_cap_witness:
  "snd (scrape_icarebetter (\<lambda>page. Some \<lparr>doctor_cards =
       [\<lparr>name_tag = Some ''Dr. Jane Smith'', loc_tag = None, link_tag = None\<rparr>],
       headings = [], next_btn = True\<rparr>)) = [1..<41] \<and>
   length (snd (scrape_icarebetter (\<lambda>page. Some \<lparr>doctor_cards =
       [\<lparr>name_tag = Some ''Dr. Jane Smith'', loc_tag = None, link_tag = None\<rparr>],
       headings = [], next_btn = True\<rparr>))) \<le> 40"
proof -
  let ?get = "\<lambda>page::nat. Some \<lparr>doctor_cards =
       [\<lparr>name_tag = Some ''Dr. Jane Smith'', loc_tag = None, link_tag = None\<rparr>],
       headings = [], next_btn = True\<rparr>"
  have "snd (scrape_icarebetter ?get) = [1..<41]"
    by code_simp
  with page_cap [of ?get] show ?thesis by simp
qed

section \<open>Properties of the string operations\<close>

lemma trim_set: "set (trim P s) \<subseteq> set s"
  by (auto simp: trim_def dest!: set_dropWhileD)

lemma last_dropWhile_same: "dropWhile P xs \<noteq> [] \<Longrightarrow> last (dropWhile P xs) = last xs"
  by (induction xs) (auto split: if_splits)

lemma trim_ends:
  assumes "trim P s \<noteq> []"
  shows "\<not> P (hd (trim P s)) \<and> \<not> P (last (trim P s))"
proof -
  let ?ys = "dropWhile P s"
  let ?xs = "dropWhile P (rev ?ys)"
  have xs: "?xs \<noteq> []" using assms by (simp add: trim_def)
  then have ys: "?ys \<noteq> []" by (metis dropWhile.simps(1) rev.simps(1))
  have "last (trim P s) = hd ?xs"
    using xs by (simp add: trim_def last_rev)
  moreover have "\<not> P (hd ?xs)" using xs by (rule hd_dropWhile)
  moreover have "hd (trim P s) = last ?xs"
    using xs by (simp add: trim_def hd_rev)
  moreover have "last ?xs = last (rev ?ys)" using xs by (rule last_dropWhile_same)
  moreover have "last (rev ?ys) = hd ?ys" using ys by (simp add: last_rev)
  moreover have "\<not> P (hd ?ys)" using ys by (rule hd_dropWhile)
  ultimately show ?thesis by simp
qed

lemma trim_last:
  assumes "s \<noteq> []" and "\<not> P (last s)"
  shows "trim P s \<noteq> [] \<and> last (trim P s) = last s"
proof -
  let ?ys = "dropWhile P s"
  have "last s \<in> set s" using assms(1) by simp
  then have ys: "?ys \<noteq> []" using assms(2) by (auto simp: dropWhile_eq_Nil_conv)
  then have l: "last ?ys = last s" by (rule last_dropWhile_same)
  have "hd (rev ?ys) = last ?ys" using ys by (simp add: hd_rev)
  then have "dropWhile P (rev ?ys) = rev ?ys"
    using ys l assms(2) by (cases "rev ?ys") auto
  then have "trim P s = ?ys" by (simp add: trim_def)
  then show ?thesis using ys l by simp
qed

lemma replace_last:
  assumes "old \<noteq> []"
  shows "s \<noteq> [] \<Longrightarrow> last s \<noteq> last old \<Longrightarrow>
         replace old [] s \<noteq> [] \<and> last (replace old [] s) = last s"
proof (induction s rule: length_induct)
  case (1 s)
  from "1.prems" obtain c cs where s: "s = c # cs" by (cases s) auto
  show ?case
  proof (cases "take (length old) s = old")
    case True
    let ?rest = "drop (length old) s"
    have "?rest \<noteq> []"
    proof
      assume "?rest = []"
      then have "s = old" using True by (metis append_take_drop_id append_Nil2)
      then show False using "1.prems" by simp
    qed
    moreover have "length ?rest < length s" using assms s by (cases old) auto
    moreover have "last ?rest = last s" using \<open>?rest \<noteq> []\<close> by (simp add: last_drop)
    ultimately have "replace old [] ?rest \<noteq> [] \<and> last (replace old [] ?rest) = last s"
      using "1.IH" "1.prems"(2) by auto
    moreover have "replace old [] s = replace old [] ?rest"
      using True assms s by (subst replace.simps) simp
    ultimately show ?thesis by simp
  next
    case False
    then have eq: "replace old [] s = c # replace old [] cs"
      using assms s by (subst replace.simps) simp
    show ?thesis
    proof (cases "cs = []")
      case True
      have "replace old [] [] = []" using assms by (subst replace.simps) simp
      then show ?thesis using eq True s by simp
    next
      case nonempty: False
      then have "replace old [] cs \<noteq> [] \<and> last (replace old [] cs) = last cs"
        using "1.IH" "1.prems"(2) s by auto
      then show ?thesis using eq s nonempty by simp
    qed
  qed
qed

lemma sub_runs_set: "set (sub_runs P rep s) \<subseteq> {c \<in> set s. \<not> P c} \<union> set rep"
proof (induction s rule: length_induct)
  case (1 s)
  show ?case
  proof (cases s)
    case Nil
    then show ?thesis by (subst sub_runs.simps) simp
  next
    case (Cons c cs)
    have le: "length (dropWhile P cs) < length s"
      using Cons by (simp add: less_Suc_eq_le length_dropWhile_le)
    have a: "set (sub_runs P rep (dropWhile P cs)) \<subseteq> {c \<in> set (dropWhile P cs). \<not> P c} \<union> set rep"
      using "1.IH" le by blast
    have b: "set (sub_runs P rep cs) \<subseteq> {c \<in> set cs. \<not> P c} \<union> set rep"
      using "1.IH" Cons by simp
    have c: "set (dropWhile P cs) \<subseteq> set cs" using set_dropWhileD by fastforce
    show ?thesis
      using a b c Cons by (subst sub_runs.simps) auto
  qed
qed

lemma sub_runs_last:
  "s \<noteq> [] \<Longrightarrow> \<not> P (last s) \<Longrightarrow>
   sub_runs P rep s \<noteq> [] \<and> last (sub_runs P rep s) = last s"
proof (induction s rule: length_induct)
  case (1 s)
  from "1.prems" obtain c cs where s: "s = c # cs" by (cases s) auto
  show ?case
  proof (cases "P c")
    case True
    then have cs: "cs \<noteq> []" using "1.prems" s by auto
    then have "last cs \<in> set cs" by simp
    then have d: "dropWhile P cs \<noteq> []"
      using "1.prems" s cs by (auto simp: dropWhile_eq_Nil_conv)
    then have "last (dropWhile P cs) = last cs" by (rule last_dropWhile_same)
    moreover have "length (dropWhile P cs) < length s"
      using s by (simp add: less_Suc_eq_le length_dropWhile_le)
    ultimately have "sub_runs P rep (dropWhile P cs) \<noteq> [] \<and>
        last (sub_runs P rep (dropWhile P cs)) = last s"
      using "1.IH" "1.prems"(2) d s cs by auto
    moreover have "sub_runs P rep s = rep @ sub_runs P rep (dropWhile P cs)"
      using True s by (subst sub_runs.simps) simp
    ultimately show ?thesis by simp
  next
    case False
    then have eq: "sub_runs P rep s = c # sub_runs P rep cs"
      using s by (subst sub_runs.simps) simp
    show ?thesis
    proof (cases "cs = []")
      case True
      have "sub_runs P rep [] = []" by (subst sub_runs.simps) simp
      then show ?thesis using eq True s by simp
    next
      case nonempty: False
      then have "sub_runs P rep cs \<noteq> [] \<and> last (sub_runs P rep cs) = last cs"
        using "1.IH" "1.prems"(2) s by auto
      then show ?thesis using eq s nonempty by simp
    qed
  qed
qed

section \<open>Properties of the identifiers\<close>

lemma pieces_nonempty: "pieces s \<noteq> []"
  by (induction s) (auto split: list.splits)

lemma pieces_join:
  "s = concat (map (\<lambda>w. w @ '' '') (butlast (pieces s))) @ last (pieces s)"
proof (induction s)
  case Nil
  show ?case by simp
next
  case (Cons c cs)
  obtain w ws where p: "pieces cs = w # ws"
    using pieces_nonempty [of cs] by (cases "pieces cs") auto
  show ?case
  proof (cases "c = CHR '' ''")
    case True
    then show ?thesis using Cons p by simp
  next
    case False
    then show ?thesis using Cons p by (cases "ws = []") auto
  qed
qed

lemma pieces_last: "\<exists>pre. s = pre @ last (pieces s)"
  using pieces_join [of s] by blast

lemma cap_word_last: "cap_word w \<Longrightarrow> w \<noteq> [] \<and> lower_ascii (last w)"
  by (cases w) (auto simp: cap_word_def list_all_iff)

lemma title_shape_last:
  assumes "title_shape name"
  shows "name \<noteq> [] \<and> lower_ascii (last name)"
proof -
  let ?w = "last (pieces (drop 4 name))"
  have "?w \<in> set (pieces (drop 4 name))" using pieces_nonempty by simp
  then have "cap_word ?w" using assms by (auto simp: title_shape_def list_all_iff)
  then have w: "?w \<noteq> []" "lower_ascii (last ?w)" using cap_word_last by auto
  obtain pre where "drop 4 name = pre @ ?w" using pieces_last by blast
  then have "name = take 4 name @ pre @ ?w" by (metis append_take_drop_id)
  then have "name \<noteq> []" "last name = last ?w" using w(1) by (metis append_is_Nil_conv, metis last_appendR append_is_Nil_conv)
  then show ?thesis using w(2) by simp
qed

lemma lower_ascii_not_space: "lower_ascii c \<Longrightarrow> \<not> isspace c"
  by (auto simp: lower_ascii_def isspace_def Let_def)

lemma lower_ascii_alnum: "lower_ascii c \<Longrightarrow> lower_alnum c"
  by (auto simp: lower_ascii_def lower_alnum_def Let_def)

lemma lower_ascii_lower: "lower_ascii c \<Longrightarrow> lower_char c = c"
  by (auto simp: lower_ascii_def lower_char_def Let_def)

lemma lower_ascii_punct:
  "lower_ascii c \<Longrightarrow> c \<noteq> CHR '' '' \<and> c \<noteq> CHR ''.'' \<and> c \<noteq> CHR '','' \<and> c \<noteq> CHR ''-''"
  by (auto simp: lower_ascii_def Let_def)

lemma normalize_name_last:
  assumes "name \<noteq> []" and "lower_ascii (last name)"
  shows "normalize_name name \<noteq> [] \<and> last (normalize_name name) = last name"
proof -
  note p = lower_ascii_punct [OF assms(2)]
  let ?a = "lower (strip name)"
  have s: "strip name \<noteq> [] \<and> last (strip name) = last name"
    unfolding strip_def using assms lower_ascii_not_space by (intro trim_last) auto
  then have a: "?a \<noteq> [] \<and> last ?a = last name"
    using assms(2) by (simp add: lower_def last_map lower_ascii_lower)
  let ?b = "replace ''dr. '' [] ?a"
  have b: "?b \<noteq> [] \<and> last ?b = last name"
    using replace_last [of "''dr. ''" ?a] a p by simp
  let ?c = "replace ''dr '' [] ?b"
  have c: "?c \<noteq> [] \<and> last ?c = last name"
    using replace_last [of "''dr ''" ?b] b p by simp
  let ?d = "replace ''.'' [] ?c"
  have d: "?d \<noteq> [] \<and> last ?d = last name"
    using replace_last [of "''.''" ?c] c p by simp
  let ?e = "replace '','' [] ?d"
  have e: "?e \<noteq> [] \<and> last ?e = last name"
    using replace_last [of "'',''" ?d] d p by simp
  have "sub_runs isspace '' '' ?e \<noteq> [] \<and> last (sub_runs isspace '' '' ?e) = last ?e"
    using e assms(2) lower_ascii_not_space by (intro sub_runs_last) auto
  then show ?thesis using e by (simp add: normalize_name_def)
qed

lemma make_id_chars: "\<forall>c \<in> set (make_id name). lower_alnum c \<or> c = CHR ''-''"
proof
  fix c assume "c \<in> set (make_id name)"
  then have "c \<in> set (sub_runs (\<lambda>c. \<not> lower_alnum c) ''-'' (normalize_name name))"
    using trim_set by (auto simp: make_id_def strip_chars_def)
  then show "lower_alnum c \<or> c = CHR ''-''"
    using sub_runs_set [of "\<lambda>c. \<not> lower_alnum c" "''-''" "normalize_name name"] by auto
qed

text \<open>
  C7. Identifiers: for every name of the scrapers' pattern (the title, then two or more
  capitalised words), \<open>make_id\<close> gives a string that is not empty, has only
  characters of \<open>[a-z0-9]\<close> and hyphens, and has no hyphen at its start or its end.
  \<open>make_id\<close> is a function of the name alone, it reads no state, so equal names get
  equal identifiers.
\<close>

theorem make_id_shape:
  assumes "title_shape name"
  shows "make_id name \<noteq> [] \<and>
         (\<forall>c \<in> set (make_id name). lower_alnum c \<or> c = CHR ''-'') \<and>
         hd (make_id name) \<noteq> CHR ''-'' \<and> last (make_id name) \<noteq> CHR ''-''"
proof -
  from title_shape_last [OF assms] have n: "name \<noteq> []" "lower_ascii (last name)" by auto
  let ?n = "normalize_name name"
  let ?s = "sub_runs (\<lambda>c. \<not> lower_alnum c) ''-'' ?n"
  have "?n \<noteq> [] \<and> last ?n = last name" using n by (rule normalize_name_last)
  then have "?s \<noteq> [] \<and> last ?s = last name"
    using sub_runs_last [of ?n "\<lambda>c. \<not> lower_alnum c" "''-''"] n(2) lower_ascii_alnum by auto
  then have "trim (\<lambda>c. c \<in> set ''-'') ?s \<noteq> []"
    using trim_last [of ?s "\<lambda>c. c \<in> set ''-''"] lower_ascii_punct [OF n(2)] by auto
  then have ne: "make_id name \<noteq> []" by (simp add: make_id_def strip_chars_def)
  then have "\<not> hd (make_id name) \<in> set ''-'' \<and> \<not> last (make_id name) \<in> set ''-''"
    unfolding make_id_def strip_chars_def by (rule trim_ends)
  then show ?thesis using ne make_id_chars by simp
qed

theorem make_id_shape_witness:
  "title_shape ''Dr. Jane Smith'' \<and> make_id ''Dr. Jane Smith'' = ''jane-smith'' \<and>
   hd (make_id ''Dr. Jane Smith'') \<noteq> CHR ''-''"
proof -
  have t: "title_shape ''Dr. Jane Smith''" by code_simp
  have "make_id ''Dr. Jane Smith'' = ''jane-smith''" by code_simp
  with t make_id_shape [OF t] show ?thesis by simp
qed

section \<open>Properties of the synthesized record\<close>

lemma isspace_space: "isspace (CHR '' '')"
  by (simp add: isspace_def)

lemma split_nonempty:
  assumes "s \<noteq> []" and "\<not> isspace (last s)"
  shows "split s \<noteq> []"
proof -
  have "last s \<in> set s" using assms(1) by simp
  then have "dropWhile isspace s \<noteq> []"
    using assms(2) by (auto simp: dropWhile_eq_Nil_conv)
  then show ?thesis
    by (subst split.simps) (simp split: list.splits)
qed

lemma name_parts_total:
  assumes "strip raw \<noteq> []"
  shows "\<exists>fn ln. name_parts (strip raw) = Inr (fn, ln)"
proof (cases "startswith (strip raw) ''Dr. ''")
  case False
  then show ?thesis by (simp add: name_parts_def)
next
  case True
  let ?name = "strip raw"
  have l: "\<not> isspace (last ?name)"
    using assms trim_ends [of isspace raw] by (simp add: strip_def)
  then have "last ?name \<noteq> last ''Dr. ''" using isspace_space by auto
  then have r: "replace ''Dr. '' [] ?name \<noteq> [] \<and> last (replace ''Dr. '' [] ?name) = last ?name"
    using replace_last [of "''Dr. ''" ?name] assms by simp
  then have "split (replace ''Dr. '' [] ?name) \<noteq> []"
    using l by (intro split_nonempty) auto
  then show ?thesis
    using True by (auto simp: name_parts_def split: list.splits)
qed

lemma build_record_total:
  assumes "strip raw \<noteq> []"
  shows "\<exists>rcd. build_record fmt (strip raw) entry = Inr rcd"
  using name_parts_total [OF assms] by (auto simp: build_record_def)

lemma merge_single_accept:
  assumes "get_default entry ''name'' (PStr []) = PStr raw"
      and "startswith (strip raw) ''Dr.''"
      and "name_keys E = Inr ns"
      and "normalize_name (strip raw) \<notin> ns"
  shows "\<exists>rcd. build_record fmt (strip raw) entry = Inr rcd \<and>
               merge_surgeons fmt E [entry] = (E @ [rcd], Inr 1)"
proof -
  have ne: "strip raw \<noteq> []" using assms(2) by (auto simp: startswith_def)
  then obtain rcd where rcd: "build_record fmt (strip raw) entry = Inr rcd"
    using build_record_total by blast
  have "\<not> rejected ns (strip raw)" using ne assms(2,4) by (simp add: rejected_def)
  from merge_loop_add [OF assms(1) this rcd]
  have "merge_surgeons fmt E [entry] = (E @ [rcd], Inr 1)"
    by (simp add: merge_surgeons_def assms(3))
  with rcd show ?thesis by blast
qed

lemma replace_absent:
  assumes "old \<noteq> []"
  shows "\<not> contains old s \<Longrightarrow> replace old new s = s"
proof (induction s)
  case Nil
  show ?case using assms by (subst replace.simps) simp
next
  case (Cons c cs)
  then show ?case using assms by (subst replace.simps) simp
qed

lemma startswith_title:
  assumes "startswith name ''Dr. ''"
  shows "name = ''Dr. '' @ drop 4 name"
proof -
  have "take 4 name = ''Dr. ''" using assms by (simp add: startswith_def eval_nat_numeral)
  then show ?thesis by (metis append_take_drop_id)
qed

lemma replace_title:
  assumes "startswith name ''Dr. ''"
  shows "replace ''Dr. '' [] name = replace ''Dr. '' [] (drop 4 name)"
proof -
  obtain rest where n: "name = ''Dr. '' @ rest" using startswith_title [OF assms] by blast
  show ?thesis unfolding n by (subst replace.simps) simp
qed

lemma split_space: "split (CHR '' '' # s) = split s"
  by (subst split.simps, subst (2) split.simps) (simp add: isspace_space)

lemma split_title:
  assumes "startswith name ''Dr. ''"
  shows "split name = ''Dr.'' # split (drop 4 name)"
proof -
  obtain rest where n: "name = ''Dr. '' @ rest" using startswith_title [OF assms] by blast
  have d: "\<not> isspace CHR ''D''" "\<not> isspace CHR ''r''" "\<not> isspace CHR ''.''"
    by (simp_all add: isspace_def)
  have "split (''Dr. '' @ rest) = ''Dr.'' # split (CHR '' '' # rest)"
    by (subst split.simps) (simp add: d isspace_space)
  then show ?thesis unfolding n by (simp add: split_space)
qed

text \<open>
  C10, as the code has it. A candidate whose stripped name starts with \<open>Dr.\<close> and whose key is
  new is accepted: one record is appended and the count is 1. If the name does not
  start with \<open>Dr. \<close> (no space after the title), \<open>fn\<close> and \<open>ln\<close> are the empty
  string. If it does, \<open>fn\<close> is the first and \<open>ln\<close> the last whitespace-separated
  token of the name with every occurrence of \<open>Dr. \<close> removed, and there is such a
  token; when \<open>Dr. \<close> does not occur again after the title, these are the first token
  after the title and the last token of the name.
\<close>

theorem name_fields:
  assumes "get_default entry ''name'' (PStr []) = PStr raw"
      and "name = strip raw"
      and "startswith name ''Dr.''"
      and "name_keys E = Inr ns"
      and "normalize_name name \<notin> ns"
  shows "\<exists>rcd. merge_surgeons fmt E [entry] = (E @ [rcd], Inr 1) \<and>
           (\<not> startswith name ''Dr. '' \<longrightarrow>
              map_of rcd ''fn'' = Some (PStr []) \<and> map_of rcd ''ln'' = Some (PStr [])) \<and>
           (startswith name ''Dr. '' \<longrightarrow>
              split (replace ''Dr. '' [] name) \<noteq> [] \<and>
              map_of rcd ''fn'' = Some (PStr (hd (split (replace ''Dr. '' [] name)))) \<and>
              map_of rcd ''ln'' = Some (PStr (last (split (replace ''Dr. '' [] name))))) \<and>
           (startswith name ''Dr. '' \<and> \<not> contains ''Dr. '' (drop 4 name) \<longrightarrow>
              map_of rcd ''fn'' = Some (PStr (hd (split (drop 4 name)))) \<and>
              map_of rcd ''ln'' = Some (PStr (last (split name))))"
proof -
  from merge_single_accept [OF assms(1) assms(3) [unfolded assms(2)] assms(4) assms(5) [unfolded assms(2)]]
  obtain rcd where rcd: "build_record fmt name entry = Inr rcd"
      "merge_surgeons fmt E [entry] = (E @ [rcd], Inr 1)"
    unfolding assms(2) by blast
  from rcd(1) have parts:
    "(\<not> startswith name ''Dr. '' \<longrightarrow>
        map_of rcd ''fn'' = Some (PStr []) \<and> map_of rcd ''ln'' = Some (PStr [])) \<and>
     (startswith name ''Dr. '' \<longrightarrow>
        split (replace ''Dr. '' [] name) \<noteq> [] \<and>
        map_of rcd ''fn'' = Some (PStr (hd (split (replace ''Dr. '' [] name)))) \<and>
        map_of rcd ''ln'' = Some (PStr (last (split (replace ''Dr. '' [] name)))))"
    by (auto simp: build_record_def name_parts_def split: sum.splits list.splits if_splits)
  have plain: "map_of rcd ''fn'' = Some (PStr (hd (split (drop 4 name)))) \<and>
      map_of rcd ''ln'' = Some (PStr (last (split name)))"
    if t: "startswith name ''Dr. ''" and c: "\<not> contains ''Dr. '' (drop 4 name)"
  proof -
    have "replace ''Dr. '' [] name = drop 4 name"
      using replace_title [OF t] replace_absent [OF _ c] by simp
    moreover have "last (split name) = last (split (drop 4 name))"
      using parts t calculation by (simp add: split_title [OF t])
    ultimately show ?thesis using parts t by simp
  qed
  show ?thesis using rcd(2) parts plain by blast
qed

theorem name_fields_witness:
  "startswith (strip ''Dr.Jane Smith'') ''Dr.'' \<and>
   (\<exists>rcd. merge_surgeons (\<lambda>v. ''None'') [] [[(''name'', PStr ''Dr.Jane Smith'')]]
             = ([] @ [rcd], Inr 1) \<and>
          map_of rcd ''fn'' = Some (PStr []) \<and> map_of rcd ''ln'' = Some (PStr []))"
proof -
  let ?entry = "[(''name'', PStr ''Dr.Jane Smith'')]"
  have h1: "get_default ?entry ''name'' (PStr []) = PStr ''Dr.Jane Smith''"
    by (simp add: get_default_def)
  have h3: "startswith (strip ''Dr.Jane Smith'') ''Dr.''"
    by code_simp
  have h4: "name_keys [] = Inr {}"
    by simp
  have h5: "normalize_name (strip ''Dr.Jane Smith'') \<notin> {}"
    by simp
  have h6: "\<not> startswith (strip ''Dr.Jane Smith'') ''Dr. ''"
    by code_simp
  from name_fields [OF h1 refl h3 h4 h5, of "\<lambda>v. ''None''"] h3 h6 show ?thesis
    by blast
qed

theorem name_fields_counterexample:
  "map_of (last (fst (merge_surgeons (\<lambda>v. ''None'') [] [[(''name'', PStr ''Dr. Dr. Smith'')]])))
     ''fn'' = Some (PStr ''Smith'') \<and>
   hd (split (drop 4 ''Dr. Dr. Smith'')) = ''Dr.''"
proof -
  have "map_of (last (fst (merge_surgeons (\<lambda>v. ''None'') [] [[(''name'', PStr ''Dr. Dr. Smith'')]])))
     ''fn'' = Some (PStr ''Smith'')"
    by code_simp
  moreover have "hd (split (drop 4 ''Dr. Dr. Smith'')) = ''Dr.''"
    by code_simp
  ultimately show ?thesis by simp
qed

lemma build_record_fixed:
  assumes "build_record fmt name entry = Inr rcd"
  shows "map_of rcd ''verified'' = Some (PBool False)"
    and "map_of rcd ''lat'' = Some PNone"
    and "map_of rcd ''lon'' = Some PNone"
    and "map_of rcd ''ins'' = Some (PStr ''Verify directly'')"
  using assms by (auto simp: build_record_def split: sum.splits prod.splits)

lemma build_record_copied:
  assumes "build_record fmt name entry = Inr rcd"
  shows "map_of rcd ''org'' = Some (get_default entry ''org'' (PStr ''Verify directly''))"
    and "map_of rcd ''city'' = Some (get_default entry ''city'' (PStr []))"
    and "map_of rcd ''state'' = Some (get_default entry ''state'' (PStr []))"
    and "map_of rcd ''phone'' = Some (get_default entry ''phone'' PNone)"
    and "map_of rcd ''specs'' = Some (get_default entry ''specs'' (PList [PStr ''Excision Surgery'']))"
    and "map_of rcd ''accepting'' = Some (get_default entry ''accepting'' (PBool True))"
    and "map_of rcd ''source'' = Some (get_default entry ''source'' (PStr ''Monthly Update''))"
  using assms by (auto simp: build_record_def split: sum.splits prod.splits)

lemma build_record_web:
  assumes "build_record fmt name entry = Inr rcd"
  shows "map_of rcd ''web'' =
     Some (if truthy (get_default entry ''web'' PNone) then get_default entry ''web'' PNone
           else get_default entry ''profile_url'' (PStr []))"
  using assms by (auto simp: build_record_def Let_def split: sum.splits prod.splits)

lemma build_record_notes:
  assumes "build_record fmt name entry = Inr rcd"
  shows "map_of rcd ''notes'' =
     Some (get_default entry ''notes''
       (PStr (''Added via ''
          @ format_value fmt (get_default entry ''source'' (PStr ''monthly update''))
          @ ''. Verify details directly.'')))"
  using assms by (auto simp: build_record_def split: sum.splits prod.splits)

text \<open>
  C4, as the code has it. For every candidate that is accepted, the synthesized record has
  \<open>verified\<close> false, \<open>lat\<close> and \<open>lon\<close> null and \<open>ins\<close> \<open>Verify directly\<close>, and a
  field absent on the candidate gets a fixed default: \<open>org\<close> is \<open>Verify directly\<close>;
  \<open>city\<close> and \<open>state\<close> are the empty string, and so is \<open>web\<close> when \<open>profile_url\<close>
  is absent too; \<open>phone\<close> is null; \<open>specs\<close> is \<open>['Excision Surgery']\<close>; \<open>accepting\<close>
  is true; \<open>source\<close> is \<open>Monthly Update\<close>; \<open>notes\<close> is \<open>Added via\<close>, the candidate's
  source (or \<open>monthly update\<close>), and \<open>. Verify details directly.\<close>
\<close>

theorem synthesized_record:
  assumes "get_default entry ''name'' (PStr []) = PStr raw"
      and "startswith (strip raw) ''Dr.''"
      and "name_keys E = Inr ns"
      and "normalize_name (strip raw) \<notin> ns"
  shows "\<exists>rcd. merge_surgeons fmt E [entry] = (E @ [rcd], Inr 1) \<and>
           map_of rcd ''verified'' = Some (PBool False) \<and>
           map_of rcd ''lat'' = Some PNone \<and>
           map_of rcd ''lon'' = Some PNone \<and>
           map_of rcd ''ins'' = Some (PStr ''Verify directly'') \<and>
           (map_of entry ''org'' = None \<longrightarrow> map_of rcd ''org'' = Some (PStr ''Verify directly'')) \<and>
           (map_of entry ''city'' = None \<longrightarrow> map_of rcd ''city'' = Some (PStr [])) \<and>
           (map_of entry ''state'' = None \<longrightarrow> map_of rcd ''state'' = Some (PStr [])) \<and>
           (map_of entry ''phone'' = None \<longrightarrow> map_of rcd ''phone'' = Some PNone) \<and>
           (map_of entry ''web'' = None \<and> map_of entry ''profile_url'' = None \<longrightarrow>
              map_of rcd ''web'' = Some (PStr [])) \<and>
           (map_of entry ''specs'' = None \<longrightarrow>
              map_of rcd ''specs'' = Some (PList [PStr ''Excision Surgery''])) \<and>
           (map_of entry ''accepting'' = None \<longrightarrow> map_of rcd ''accepting'' = Some (PBool True)) \<and>
           (map_of entry ''source'' = None \<longrightarrow> map_of rcd ''source'' = Some (PStr ''Monthly Update'')) \<and>
           (map_of entry ''notes'' = None \<longrightarrow>
              map_of rcd ''notes'' = Some (PStr (''Added via ''
                @ format_value fmt (get_default entry ''source'' (PStr ''monthly update''))
                @ ''. Verify details directly.'')))"
proof -
  from merge_single_accept [OF assms]
  obtain rcd where rcd: "build_record fmt (strip raw) entry = Inr rcd"
      and merged: "merge_surgeons fmt E [entry] = (E @ [rcd], Inr 1)"
    by blast
  note fixed = build_record_fixed [OF rcd]
  note copied = build_record_copied [OF rcd]
  show ?thesis
  proof (intro exI conjI impI)
    show "merge_surgeons fmt E [entry] = (E @ [rcd], Inr 1)" by (rule merged)
    show "map_of rcd ''verified'' = Some (PBool False)" by (rule fixed(1))
    show "map_of rcd ''lat'' = Some PNone" by (rule fixed(2))
    show "map_of rcd ''lon'' = Some PNone" by (rule fixed(3))
    show "map_of rcd ''ins'' = Some (PStr ''Verify directly'')" by (rule fixed(4))
    show "map_of rcd ''org'' = Some (PStr ''Verify directly'')" if "map_of entry ''org'' = None"
      using that copied(1) by (simp add: get_default_def)
    show "map_of rcd ''city'' = Some (PStr [])" if "map_of entry ''city'' = None"
      using that copied(2) by (simp add: get_default_def)
    show "map_of rcd ''state'' = Some (PStr [])" if "map_of entry ''state'' = None"
      using that copied(3) by (simp add: get_default_def)
    show "map_of rcd ''phone'' = Some PNone" if "map_of entry ''phone'' = None"
      using that copied(4) by (simp add: get_default_def)
    show "map_of rcd ''web'' = Some (PStr [])"
      if "map_of entry ''web'' = None \<and> map_of entry ''profile_url'' = None"
      using that build_record_web [OF rcd] by (simp add: get_default_def)
    show "map_of rcd ''specs'' = Some (PList [PStr ''Excision Surgery''])"
      if "map_of entry ''specs'' = None"
      using that copied(5) by (simp add: get_default_def)
    show "map_of rcd ''accepting'' = Some (PBool True)" if "map_of entry ''accepting'' = None"
      using that copied(6) by (simp add: get_default_def)
    show "map_of rcd ''source'' = Some (PStr ''Monthly Update'')" if "map_of entry ''source'' = None"
      using that copied(7) by (simp add: get_default_def)
    show "map_of rcd ''notes'' = Some (PStr (''Added via ''
                @ format_value fmt (get_default entry ''source'' (PStr ''monthly update''))
                @ ''. Verify details directly.''))" if "map_of entry ''notes'' = None"
      using that build_record_notes [OF rcd] by (simp add: get_default_def)
  qed
qed

theorem synthesized_record_witness:
  "startswith (strip ''Dr. Amy Lee'') ''Dr.'' \<and>
   (\<exists>rcd. merge_surgeons (\<lambda>v. ''None'') [[(''name'', PStr ''Dr. Jane Smith'')]]
             [[(''name'', PStr ''Dr. Amy Lee''), (''source'', PStr ''EndofEndo'')]]
           = ([[(''name'', PStr ''Dr. Jane Smith'')]] @ [rcd], Inr 1) \<and>
          map_of rcd ''verified'' = Some (PBool False) \<and>
          map_of rcd ''org'' = Some (PStr ''Verify directly'') \<and>
          map_of rcd ''city'' = Some (PStr []) \<and>
          map_of rcd ''notes'' = Some (PStr ''Added via EndofEndo. Verify details directly.''))"
proof -
  let ?entry = "[(''name'', PStr ''Dr. Amy Lee''), (''source'', PStr ''EndofEndo'')]"
  let ?E = "[[(''name'', PStr ''Dr. Jane Smith'')]]"
  have h1: "get_default ?entry ''name'' (PStr []) = PStr ''Dr. Amy Lee''"
    by (simp add: get_default_def)
  have h2: "startswith (strip ''Dr. Amy Lee'') ''Dr.''"
    by code_simp
  have h3: "name_keys ?E = Inr {normalize_name ''Dr. Jane Smith''}"
    by simp
  have h4: "normalize_name (strip ''Dr. Amy Lee'') \<notin> {normalize_name ''Dr. Jane Smith''}"
    by code_simp
  have a: "map_of ?entry ''org'' = None" "map_of ?entry ''city'' = None"
    "map_of ?entry ''notes'' = None"
    by simp_all
  have s: "format_value (\<lambda>v. ''None'') (get_default ?entry ''source'' (PStr ''monthly update''))
      = ''EndofEndo''"
    by (simp add: format_value_def get_default_def)
  from synthesized_record [OF h1 h2 h3 h4, of "\<lambda>v. ''None''"] obtain rcd where
    "merge_surgeons (\<lambda>v. ''None'') ?E [?entry] = (?E @ [rcd], Inr 1)"
    "map_of rcd ''verified'' = Some (PBool False)"
    "map_of rcd ''org'' = Some (PStr ''Verify directly'')"
    "map_of rcd ''city'' = Some (PStr [])"
    "map_of rcd ''notes'' = Some (PStr (''Added via ''
        @ format_value (\<lambda>v. ''None'') (get_default ?entry ''source'' (PStr ''monthly update''))
        @ ''. Verify details directly.''))"
    using a by blast
  then show ?thesis using h2 s by auto
qed

theorem synthesized_record_counterexample:
  "map_of (last (fst (merge_surgeons (\<lambda>v. ''None'') [] [[(''name'', PStr ''Dr. Jane Smith'')]])))
     ''city'' = Some (PStr [])"
  by code_simp

text \<open>
  C2. The three spellings of the specification: the first two have the key
  \<open>jane smith\<close>, the third, with two spaces after the title, keeps a space at the
  front of its key, and a merge of the first and the third adds two records.
\<close>

theorem normalize_name_variants:
  "normalize_name ''Dr. Jane Smith'' = ''jane smith'' \<and>
   normalize_name ''dr jane smith'' = ''jane smith'' \<and>
   normalize_name ''Dr.  Jane   Smith.'' = '' jane smith'' \<and>
   snd (merge_surgeons (\<lambda>v. ''None'') []
          [[(''name'', PStr ''Dr. Jane Smith'')], [(''name'', PStr ''Dr.  Jane   Smith.'')]])
     = Inr 2"
proof -
  have "normalize_name ''Dr. Jane Smith'' = ''jane smith''"
    by code_simp
  moreover have "normalize_name ''dr jane smith'' = ''jane smith''"
    by code_simp
  moreover have "normalize_name ''Dr.  Jane   Smith.'' = '' jane smith''"
    by code_simp
  moreover have "snd (merge_surgeons (\<lambda>v. ''None'') []
          [[(''name'', PStr ''Dr. Jane Smith'')], [(''name'', PStr ''Dr.  Jane   Smith.'')]])
     = Inr 2"
    by code_simp
  ultimately show ?thesis by simp
qed

section \<open>Properties of the run\<close>

lemma merge_surgeons_keys:
  assumes "name_keys E = Inr ns"
  shows "\<exists>ns'. name_keys (fst (merge_surgeons fmt E C)) = Inr ns' \<and> ns \<subseteq> ns' \<and>
           (\<forall>a. snd (merge_surgeons fmt E C) = Inr a \<longrightarrow> list_all (skips ns') C)"
proof -
  obtain E' r where m: "merge_loop fmt E ns 0 C = (E', r)" by (cases "merge_loop fmt E ns 0 C")
  from merge_loop_inv [OF assms m] show ?thesis
    by (simp add: merge_surgeons_def assms m)
qed

lemma merge_surgeons_ok_keys:
  assumes "snd (merge_surgeons fmt E C) = Inr a"
  shows "\<exists>ns. name_keys E = Inr ns"
  using assms by (cases "name_keys E") (auto simp: merge_surgeons_def)

lemma run_source_existing:
  "\<exists>new. existing (run_source fmt st src) = existing st @ new"
proof (cases src)
  case (Pair n scraped)
  show ?thesis
  proof (cases scraped)
    case (Inl e)
    then show ?thesis using Pair by (simp add: run_source_def)
  next
    case (Inr new_entries)
    obtain new where "fst (merge_surgeons fmt (existing st) new_entries) = existing st @ new"
      using merge_surgeons_prefix by blast
    then show ?thesis using Pair Inr
      by (auto simp: run_source_def split: prod.splits sum.splits)
  qed
qed

lemma run_sources_existing:
  "\<exists>new. existing (run_sources fmt st srcs) = existing st @ new"
proof (induction srcs arbitrary: st)
  case Nil
  show ?case by simp
next
  case (Cons src rest)
  obtain new1 where "existing (run_source fmt st src) = existing st @ new1"
    using run_source_existing by blast
  moreover obtain new2 where
    "existing (run_sources fmt (run_source fmt st src) rest) = existing (run_source fmt st src) @ new2"
    using Cons.IH by blast
  ultimately show ?case by simp
qed

lemma run_sources_append:
  "run_sources fmt st (xs @ ys) = run_sources fmt (run_sources fmt st xs) ys"
  by (induction xs arbitrary: st) simp_all

lemma run_source_results_other:
  "n \<noteq> fst src \<Longrightarrow>
   map_of (results_by_source (run_source fmt st src)) n = map_of (results_by_source st) n"
  by (cases src) (auto simp: run_source_def update_conv' split: prod.splits sum.splits)

lemma run_sources_results_other:
  "n \<notin> fst ` set srcs \<Longrightarrow>
   map_of (results_by_source (run_sources fmt st srcs)) n = map_of (results_by_source st) n"
  by (induction srcs arbitrary: st) (auto simp: run_source_results_other)

lemma run_source_agree:
  assumes "existing st1 = existing st2" and "total_added st1 = total_added st2"
  shows "existing (run_source fmt st1 src) = existing (run_source fmt st2 src) \<and>
         total_added (run_source fmt st1 src) = total_added (run_source fmt st2 src)"
  using assms by (cases src) (auto simp: run_source_def split: prod.splits sum.splits)

lemma run_sources_agree:
  assumes "existing st1 = existing st2" and "total_added st1 = total_added st2"
  shows "existing (run_sources fmt st1 srcs) = existing (run_sources fmt st2 srcs) \<and>
         total_added (run_sources fmt st1 srcs) = total_added (run_sources fmt st2 srcs)"
  using assms
proof (induction srcs arbitrary: st1 st2)
  case Nil
  then show ?case by simp
next
  case (Cons src rest)
  from run_source_agree [OF Cons.prems, of fmt src]
  show ?case using Cons.IH [of "run_source fmt st1 src" "run_source fmt st2 src"] by simp
qed

lemma run_source_keys:
  assumes "name_keys (existing st) = Inr ns"
  shows "\<exists>ns'. name_keys (existing (run_source fmt st src)) = Inr ns' \<and> ns \<subseteq> ns'"
proof (cases src)
  case (Pair n scraped)
  show ?thesis
  proof (cases scraped)
    case (Inl e)
    then show ?thesis using Pair assms by (simp add: run_source_def)
  next
    case (Inr new_entries)
    from merge_surgeons_keys [OF assms, of fmt new_entries] obtain ns' where
      "name_keys (fst (merge_surgeons fmt (existing st) new_entries)) = Inr ns'" "ns \<subseteq> ns'"
      by blast
    then show ?thesis using Pair Inr
      by (auto simp: run_source_def split: prod.splits sum.splits)
  qed
qed

lemma run_sources_keys:
  assumes "name_keys (existing st) = Inr ns"
  shows "\<exists>ns'. name_keys (existing (run_sources fmt st srcs)) = Inr ns' \<and> ns \<subseteq> ns'"
  using assms
proof (induction srcs arbitrary: st ns)
  case Nil
  then show ?case by simp
next
  case (Cons src rest)
  from run_source_keys [OF Cons.prems, of fmt src] obtain ns1 where
    ns1: "name_keys (existing (run_source fmt st src)) = Inr ns1" "ns \<subseteq> ns1"
    by blast
  from Cons.IH [OF ns1(1)] ns1(2) show ?case by auto
qed

lemma skips_mono: "skips ns entry \<Longrightarrow> ns \<subseteq> ns' \<Longrightarrow> skips ns' entry"
  by (auto simp: skips_def rejected_mono split: pyval.splits)

text \<open>A source whose merge returns has every candidate passed over by the final keys.\<close>

lemma run_sources_added:
  assumes "snd (merge_surgeons fmt (existing st) new_entries) = Inr a"
  shows "\<exists>ns. name_keys (existing (run_sources fmt st ((n, Inr new_entries) # rest))) = Inr ns \<and>
              list_all (skips ns) new_entries"
proof -
  from merge_surgeons_ok_keys [OF assms] obtain ns0 where ns0: "name_keys (existing st) = Inr ns0"
    by blast
  from merge_surgeons_keys [OF ns0, of fmt new_entries] assms obtain ns1 where
    ns1: "name_keys (fst (merge_surgeons fmt (existing st) new_entries)) = Inr ns1"
      "list_all (skips ns1) new_entries"
    by blast
  let ?st1 = "run_source fmt st (n, Inr new_entries)"
  have "existing ?st1 = fst (merge_surgeons fmt (existing st) new_entries)"
    by (auto simp: run_source_def split: prod.splits sum.splits)
  then have "name_keys (existing ?st1) = Inr ns1" using ns1(1) by simp
  from run_sources_keys [OF this, of fmt rest] obtain ns where
    ns: "name_keys (existing (run_sources fmt ?st1 rest)) = Inr ns" "ns1 \<subseteq> ns"
    by blast
  have "list_all (skips ns) new_entries"
    using ns1(2) ns(2) by (auto simp: list_all_iff skips_mono)
  then show ?thesis using ns(1) by simp
qed

lemma run_source_failed:
  assumes "scraped = Inl e \<or>
     (\<exists>new_entries. scraped = Inr new_entries \<and>
        snd (merge_surgeons fmt (existing st) new_entries) = Inl e)"
  shows "map_of (results_by_source (run_source fmt st (n, scraped))) n = Some (Failed e)"
  using assms by (auto simp: run_source_def update_conv' split: prod.splits sum.splits)

lemma merge_loop_returns:
  "list_all well_named C \<Longrightarrow> \<exists>ex' a. merge_loop fmt ex ns k C = (ex', Inr a)"
proof (induction C arbitrary: ex ns k)
  case Nil
  show ?case by simp
next
  case (Cons entry rest)
  then have rest: "list_all well_named rest" and entry: "well_named entry" by simp_all
  show ?case
  proof (cases rule: merge_loop_cases [where entry = entry and ns = ns and fmt = fmt])
    case (skip raw)
    show ?thesis using Cons.IH [OF rest, of ex ns k] by (simp only: merge_loop_skip [OF skip])
  next
    case (add raw rcd)
    show ?thesis
      using Cons.IH [OF rest, of "ex @ [rcd]" "insert (normalize_name (strip raw)) ns" "Suc k"]
      by (simp only: merge_loop_add [OF add])
  next
    case (raise raw e)
    from raise(2) have "strip raw \<noteq> []" by (simp add: rejected_def)
    from build_record_total [OF this, of fmt entry] raise(3) show ?thesis by simp
  next
    case not_str
    then show ?thesis using entry by (auto simp: well_named_def split: pyval.splits)
  qed
qed

lemma merge_surgeons_returns:
  assumes "name_keys E = Inr ns" and "list_all well_named C"
  shows "\<exists>a. snd (merge_surgeons fmt E C) = Inr a"
proof -
  from merge_loop_returns [OF assms(2), of fmt E ns 0] obtain ex' a where
    "merge_loop fmt E ns 0 C = (ex', Inr a)" by blast
  then show ?thesis by (simp add: merge_surgeons_def assms(1))
qed

lemma run_source_results_self:
  "\<exists>out. map_of (results_by_source (run_source fmt st src)) (fst src) = Some out"
  by (cases src) (auto simp: run_source_def update_conv' split: prod.splits sum.splits)

lemma run_source_results_keep:
  "map_of (results_by_source st) n = Some out \<Longrightarrow>
   \<exists>out'. map_of (results_by_source (run_source fmt st src)) n = Some out'"
  by (cases src) (auto simp: run_source_def update_conv' split: prod.splits sum.splits)

lemma run_sources_results_keep:
  "map_of (results_by_source st) n = Some out \<Longrightarrow>
   \<exists>out'. map_of (results_by_source (run_sources fmt st srcs)) n = Some out'"
proof (induction srcs arbitrary: st out)
  case Nil
  then show ?case by simp
next
  case (Cons src rest)
  from run_source_results_keep [OF Cons.prems, of fmt src] obtain out1 where
    "map_of (results_by_source (run_source fmt st src)) n = Some out1" by blast
  from Cons.IH [OF this] show ?case by simp
qed

lemma run_sources_results_dom:
  "n \<in> fst ` set srcs \<Longrightarrow>
   \<exists>out. map_of (results_by_source (run_sources fmt st srcs)) n = Some out"
proof (induction srcs arbitrary: st)
  case Nil
  then show ?case by simp
next
  case (Cons src rest)
  show ?case
  proof (cases "n = fst src")
    case True
    obtain out1 where "map_of (results_by_source (run_source fmt st src)) n = Some out1"
      using run_source_results_self [of fmt st src] True by blast
    from run_sources_results_keep [OF this, of fmt rest] show ?thesis by simp
  next
    case False
    then have "n \<in> fst ` set rest" using Cons.prems by auto
    from Cons.IH [OF this, of "run_source fmt st src"] show ?thesis by simp
  qed
qed

text \<open>
  C6, as the code has it. Fault isolation. \<open>run_sources\<close> is total: no exception
  of a scraper or of the merge leaves the loop. If the source \<open>source_name\<close>, reached
  after the sources \<open>before\<close>, fails with \<open>e\<close> (its scraper raises, or its merge
  does), and no later source has its name, then after the run
  \<^item> the outcome of \<open>source_name\<close> is the error \<open>e\<close>;
  \<^item> the records accumulated by the sources \<open>before\<close> are all there, in front;
  \<^item> if it was the scraper that raised, the records and the added total are those of
    the run without this source;
  \<^item> every later source has been run: it has an outcome;
  \<^item> if every record loaded at the start has a \<open>str\<close> name, then every later
    source whose candidates all have a \<open>str\<close> name (or none) is merged without an
    exception, and each of its candidates is passed over by the keys of the final
    records: it has no title, or its key is among them.
  Without the condition on the loaded records the last item fails: a loaded record
  with no \<open>name\<close> makes the merge of every source raise, and nothing is added.
\<close>

theorem fault_isolation:
  assumes fails: "scraped = Inl e \<or>
     (\<exists>new_entries. scraped = Inr new_entries \<and>
        snd (merge_surgeons fmt (existing (run_sources fmt st before)) new_entries) = Inl e)"
    and later: "source_name \<notin> fst ` set after"
  shows
    "map_of (results_by_source (run_sources fmt st (before @ (source_name, scraped) # after)))
       source_name = Some (Failed e) \<and>
     (\<exists>new. existing (run_sources fmt st (before @ (source_name, scraped) # after))
            = existing (run_sources fmt st before) @ new) \<and>
     (scraped = Inl e \<longrightarrow>
        existing (run_sources fmt st (before @ (source_name, scraped) # after))
          = existing (run_sources fmt st (before @ after)) \<and>
        total_added (run_sources fmt st (before @ (source_name, scraped) # after))
          = total_added (run_sources fmt st (before @ after))) \<and>
     (\<forall>n \<in> fst ` set after.
        \<exists>out. map_of (results_by_source
                 (run_sources fmt st (before @ (source_name, scraped) # after))) n = Some out) \<and>
     (\<forall>pre n new_entries post ns0.
        after = pre @ (n, Inr new_entries) # post \<and>
        name_keys (existing st) = Inr ns0 \<and> list_all well_named new_entries \<longrightarrow>
        (\<exists>a ns.
           snd (merge_surgeons fmt
                  (existing (run_sources fmt st (before @ (source_name, scraped) # pre)))
                  new_entries) = Inr a \<and>
           name_keys (existing (run_sources fmt st (before @ (source_name, scraped) # after)))
             = Inr ns \<and>
           list_all (skips ns) new_entries))"
proof -
  let ?mid = "run_sources fmt st before"
  let ?failed = "run_source fmt ?mid (source_name, scraped)"
  let ?final = "run_sources fmt st (before @ (source_name, scraped) # after)"
  have final: "?final = run_sources fmt ?failed after"
    by (simp add: run_sources_append)
  have outcome: "map_of (results_by_source ?final) source_name = Some (Failed e)"
    using run_source_failed [OF fails] run_sources_results_other [OF later]
    by (simp add: final)
  have kept: "\<exists>new. existing ?final = existing ?mid @ new"
  proof -
    obtain new1 where "existing ?failed = existing ?mid @ new1"
      using run_source_existing by blast
    moreover obtain new2 where "existing (run_sources fmt ?failed after) = existing ?failed @ new2"
      using run_sources_existing by blast
    ultimately show ?thesis by (simp add: final)
  qed
  have fetch: "existing ?final = existing (run_sources fmt st (before @ after)) \<and>
      total_added ?final = total_added (run_sources fmt st (before @ after))"
    if "scraped = Inl e"
  proof -
    have "existing ?failed = existing ?mid" "total_added ?failed = total_added ?mid"
      using that by (simp_all add: run_source_def)
    from run_sources_agree [OF this, of fmt after] show ?thesis
      by (simp add: final run_sources_append)
  qed
  have executed: "\<exists>out. map_of (results_by_source ?final) n = Some out"
    if "n \<in> fst ` set after" for n
    using run_sources_results_dom [OF that, of fmt ?failed] by (simp add: final)
  have others: "\<exists>a ns.
      snd (merge_surgeons fmt
             (existing (run_sources fmt st (before @ (source_name, scraped) # pre)))
             new_entries) = Inr a \<and>
      name_keys (existing ?final) = Inr ns \<and> list_all (skips ns) new_entries"
    if split: "after = pre @ (n, Inr new_entries) # post"
      and loaded: "name_keys (existing st) = Inr ns0"
      and named: "list_all well_named new_entries"
    for pre n new_entries post ns0
  proof -
    let ?st = "run_sources fmt st (before @ (source_name, scraped) # pre)"
    obtain ns1 where ns1: "name_keys (existing ?st) = Inr ns1"
      using run_sources_keys [OF loaded] by blast
    obtain a where a: "snd (merge_surgeons fmt (existing ?st) new_entries) = Inr a"
      using merge_surgeons_returns [OF ns1 named] by blast
    have "?final = run_sources fmt ?st ((n, Inr new_entries) # post)"
      using split run_sources_append [of fmt st "before @ (source_name, scraped) # pre"]
      by simp
    then obtain ns where "name_keys (existing ?final) = Inr ns" "list_all (skips ns) new_entries"
      using run_sources_added [OF a, of n post] by auto
    with a show ?thesis by blast
  qed
  show ?thesis
  proof (intro conjI)
    show "map_of (results_by_source ?final) source_name = Some (Failed e)" by (rule outcome)
    show "\<exists>new. existing ?final = existing ?mid @ new" by (rule kept)
    show "scraped = Inl e \<longrightarrow>
        existing ?final = existing (run_sources fmt st (before @ after)) \<and>
        total_added ?final = total_added (run_sources fmt st (before @ after))"
      using fetch by blast
    show "\<forall>n \<in> fst ` set after. \<exists>out. map_of (results_by_source ?final) n = Some out"
      using executed by blast
    show "\<forall>pre n new_entries post ns0.
        after = pre @ (n, Inr new_entries) # post \<and>
        name_keys (existing st) = Inr ns0 \<and> list_all well_named new_entries \<longrightarrow>
        (\<exists>a ns.
           snd (merge_surgeons fmt
                  (existing (run_sources fmt st (before @ (source_name, scraped) # pre)))
                  new_entries) = Inr a \<and>
           name_keys (existing ?final) = Inr ns \<and>
           list_all (skips ns) new_entries)"
      using others by blast
  qed
qed

theorem fault_isolation_witness:
  "map_of (results_by_source (run_sources (\<lambda>v. ''None'')
       \<lparr>existing = [[(''name'', PStr ''Dr. Jane Smith'')]], total_added = 0, results_by_source = []\<rparr>
       ([] @ (''iCareBetter'', Inl (OtherError ''timeout''))
          # [(''EndofEndo'', Inr [[(''name'', PStr ''Dr. Jane Smith'')],
                                  [(''name'', PStr ''Dr. Amy Lee'')]])])))
     ''iCareBetter'' = Some (Failed (OtherError ''timeout'')) \<and>
   map_of (results_by_source (run_sources (\<lambda>v. ''None'')
       \<lparr>existing = [[(''name'', PStr ''Dr. Jane Smith'')]], total_added = 0, results_by_source = []\<rparr>
       ([] @ (''iCareBetter'', Inl (OtherError ''timeout''))
          # [(''EndofEndo'', Inr [[(''name'', PStr ''Dr. Jane Smith'')],
                                  [(''name'', PStr ''Dr. Amy Lee'')]])])))
     ''EndofEndo'' = Some (Counts 2 1) \<and>
   length (existing (run_sources (\<lambda>v. ''None'')
       \<lparr>existing = [[(''name'', PStr ''Dr. Jane Smith'')]], total_added = 0, results_by_source = []\<rparr>
       ([] @ (''iCareBetter'', Inl (OtherError ''timeout''))
          # [(''EndofEndo'', Inr [[(''name'', PStr ''Dr. Jane Smith'')],
                                  [(''name'', PStr ''Dr. Amy Lee'')]])]))) = 2 \<and>
   (\<exists>ns. name_keys (existing (run_sources (\<lambda>v. ''None'')
       \<lparr>existing = [[(''name'', PStr ''Dr. Jane Smith'')]], total_added = 0, results_by_source = []\<rparr>
       ([] @ (''iCareBetter'', Inl (OtherError ''timeout''))
          # [(''EndofEndo'', Inr [[(''name'', PStr ''Dr. Jane Smith'')],
                                  [(''name'', PStr ''Dr. Amy Lee'')]])]))) = Inr ns \<and>
      list_all (skips ns) [[(''name'', PStr ''Dr. Jane Smith'')], [(''name'', PStr ''Dr. Amy Lee'')]])"
proof -
  let ?st = "\<lparr>existing = [[(''name'', PStr ''Dr. Jane Smith'')]], total_added = 0,
              results_by_source = []\<rparr>"
  let ?new = "[[(''name'', PStr ''Dr. Jane Smith'')], [(''name'', PStr ''Dr. Amy Lee'')]]"
  let ?after = "[(''EndofEndo'', Inr ?new)]"
  let ?final = "run_sources (\<lambda>v. ''None'') ?st
       ([] @ (''iCareBetter'', Inl (OtherError ''timeout'')) # ?after)"
  have later: "''iCareBetter'' \<notin> fst ` set ?after"
    by simp
  have fails: "(Inl (OtherError ''timeout'') :: py_error + pydict list) = Inl (OtherError ''timeout'') \<or>
     (\<exists>new_entries. (Inl (OtherError ''timeout'') :: py_error + pydict list) = Inr new_entries \<and>
        snd (merge_surgeons (\<lambda>v. ''None'') (existing (run_sources (\<lambda>v. ''None'') ?st [])) new_entries)
          = Inl (OtherError ''timeout''))"
    by simp
  note iso = fault_isolation [OF fails later]
  have a: "map_of (results_by_source ?final) ''iCareBetter'' = Some (Failed (OtherError ''timeout''))"
    using iso by (rule conjunct1)
  have split: "?after = [] @ (''EndofEndo'', Inr ?new) # []"
    by simp
  have loaded: "name_keys (existing ?st) = Inr {normalize_name ''Dr. Jane Smith''}"
    by simp
  have named: "list_all well_named ?new"
    by (simp add: well_named_def get_default_def)
  have d: "\<exists>ns. name_keys (existing ?final) = Inr ns \<and> list_all (skips ns) ?new"
  proof -
    note others = iso [THEN conjunct2, THEN conjunct2, THEN conjunct2, THEN conjunct2,
        rule_format, of "[]" "''EndofEndo''" ?new "[]" "{normalize_name ''Dr. Jane Smith''}"]
    from others [OF conjI [OF split conjI [OF loaded named]]] show ?thesis
      by (elim exE conjE) (intro exI conjI)
  qed
  have b: "map_of (results_by_source ?final) ''EndofEndo'' = Some (Counts 2 1)"
    by code_simp
  have c: "length (existing ?final) = 2"
    by code_simp
  show ?thesis
    by (rule conjI [OF a conjI [OF b conjI [OF c d]]])
qed

theorem fault_isolation_counterexample:
  "results_by_source (run_sources (\<lambda>v. ''None'')
       \<lparr>existing = [[(''city'', PStr ''Reno'')]], total_added = 0, results_by_source = []\<rparr>
       [(''iCareBetter'', Inr [[(''name'', PStr ''Dr. Jane Smith'')]]),
        (''EndofEndo'', Inr [[(''name'', PStr ''Dr. Amy Lee'')]])])
     = [(''iCareBetter'', Failed KeyError), (''EndofEndo'', Failed KeyError)] \<and>
   existing (run_sources (\<lambda>v. ''None'')
       \<lparr>existing = [[(''city'', PStr ''Reno'')]], total_added = 0, results_by_source = []\<rparr>
       [(''iCareBetter'', Inr [[(''name'', PStr ''Dr. Jane Smith'')]]),
        (''EndofEndo'', Inr [[(''name'', PStr ''Dr. Amy Lee'')]])])
     = [[(''city'', PStr ''Reno'')]]"
proof -
  have "results_by_source (run_sources (\<lambda>v. ''None'')
       \<lparr>existing = [[(''city'', PStr ''Reno'')]], total_added = 0, results_by_source = []\<rparr>
       [(''iCareBetter'', Inr [[(''name'', PStr ''Dr. Jane Smith'')]]),
        (''EndofEndo'', Inr [[(''name'', PStr ''Dr. Amy Lee'')]])])
     = [(''iCareBetter'', Failed KeyError), (''EndofEndo'', Failed KeyError)]"
    by code_simp
  moreover have "existing (run_sources (\<lambda>v. ''None'')
       \<lparr>existing = [[(''city'', PStr ''Reno'')]], total_added = 0, results_by_source = []\<rparr>
       [(''iCareBetter'', Inr [[(''name'', PStr ''Dr. Jane Smith'')]]),
        (''EndofEndo'', Inr [[(''name'', PStr ''Dr. Amy Lee'')]])])
     = [[(''city'', PStr ''Reno'')]]"
    by code_simp
  ultimately show ?thesis by simp
qed

end
